theory Spec2Isabelle
  imports Main "HOL-Library.Sublist" "HOL-Library.Multiset"
begin

section \<open>JavaScript string primitives used by the resolver\<close>

text \<open>
  A JavaScript string is modelled as a \<open>string\<close>, one \<open>char\<close> per code unit. The
  resolver only ever compares code units for equality with ASCII characters, so the
  width of a code unit plays no part in what follows.

  \<^verbatim>\<open>s.split(sep)\<close> with a string separator cuts \<open>s\<close> at the non-overlapping
  occurrences of \<open>sep\<close>, found left to right; the empty separator cuts between all code
  units. \<open>splitFrom\<close> carries the piece collected so far.
\<close>

function splitFrom :: "string \<Rightarrow> string \<Rightarrow> string \<Rightarrow> string list" where
  "splitFrom sep cur [] = [cur]"
| "splitFrom sep cur (c # cs) =
     (if sep \<noteq> [] \<and> prefix sep (c # cs)
      then cur # splitFrom sep [] (drop (length sep) (c # cs))
      else splitFrom sep (cur @ [c]) cs)"
  by pat_completeness auto
termination
  by (relation "measure (\<lambda>(sep, cur, s). length s)") (auto simp: neq_Nil_conv)

definition split_str :: "string \<Rightarrow> string \<Rightarrow> string list" where
  "split_str sep s = (if sep = [] then map (\<lambda>c. [c]) s else splitFrom sep [] s)"

text \<open>\<^verbatim>\<open>parts.join(val)\<close>: the parts with \<open>val\<close> between each two of them.\<close>

fun join_str :: "string \<Rightarrow> string list \<Rightarrow> string" where
  "join_str val [] = []"
| "join_str val [p] = p"
| "join_str val (p # q # ps) = p @ val @ join_str val (q # ps)"

text \<open>The template literal \<^verbatim>\<open>`{{${key}}}`\<close>.\<close>

definition placeholder :: "string \<Rightarrow> string" where
  "placeholder key = ''{{'' @ key @ ''}}''"

text \<open>
  Decimal rendering of a non-negative integer, as a template literal renders the number
  \<^verbatim>\<open>idx + 1\<close>.
\<close>

definition digit :: "nat \<Rightarrow> char" where
  "digit d = ''0123456789'' ! d"

fun string_of_nat :: "nat \<Rightarrow> string" where
  "string_of_nat n =
     (if n < 10 then [digit n]
      else string_of_nat (n div 10) @ [digit (n mod 10)])"

text \<open>
  One left-to-right pass that writes \<open>val\<close> for each occurrence of \<open>sep\<close> it meets and
  resumes after the occurrence, never looking at what it wrote. This is not a function
  of the program: it is the reading of \<^verbatim>\<open>s.split(sep).join(val)\<close> that the
  proofs work with, and \<open>join_split\<close> below shows the two agree.
\<close>

function replaceAll :: "string \<Rightarrow> string \<Rightarrow> string \<Rightarrow> string" where
  "replaceAll sep val [] = []"
| "replaceAll sep val (c # cs) =
     (if sep \<noteq> [] \<and> prefix sep (c # cs)
      then val @ replaceAll sep val (drop (length sep) (c # cs))
      else c # replaceAll sep val cs)"
  by pat_completeness auto
termination
  by (relation "measure (\<lambda>(sep, val, s). length s)") (auto simp: neq_Nil_conv)

text \<open>
  A placeholder name in the sense of the specification: an identifier, which holds
  neither brace.
\<close>

definition brace_free :: "string \<Rightarrow> bool" where
  "brace_free n \<longleftrightarrow> CHR ''{'' \<notin> set n \<and> CHR ''}'' \<notin> set n"

section \<open>The prompt tester (ChatBot.tsx)\<close>

record RiccePrompt =
  role :: string
  instruction :: string
  context_field :: string
  constraints :: string
  evaluation :: string

text \<open>
  \<^verbatim>\<open>
  const substituteVars = (text: string) => {
    let result = text;
    Object.entries(variables).forEach(([key, val]) => {
      result = result.split(`{{${key}}}`).join(String(val));
    });
    return result;
  };
  \<close>
  The record \<open>variables\<close> is the list of its entries in the order \<open>Object.entries\<close>
  enumerates them.
\<close>

type_synonym scope = "(string \<times> string) list"

definition substituteVars :: "scope \<Rightarrow> string \<Rightarrow> string" where
  "substituteVars variables s =
     fold (\<lambda>(key, val) result. join_str val (split_str (placeholder key) result))
       variables s"

text \<open>
  \<^verbatim>\<open>
  const detectedVars = Array.from(new Set(
    Object.values(promptData).join(' ').match(/{{(.*?)}}/g)
      ?.map(v => v.replace(/[{}]/g, '')) || []
  ));
  \<close>
  The dot of a regular expression matches every code unit but a line terminator.
  \<open>findClose\<close> is the lazy \<^verbatim>\<open>(.*?)}}\<close>: the shortest run of such code units
  that is followed by \<^verbatim>\<open>}}\<close>.
  \<open>matchAll\<close> is the global match: at each position, left to right, a match if there
  is one, and the search resumes after it.
\<close>

definition lineTerminator :: "char \<Rightarrow> bool" where
  "lineTerminator c \<longleftrightarrow> c = CHR 0x0A \<or> c = CHR 0x0D"

fun findClose :: "string \<Rightarrow> string option" where
  "findClose [] = None"
| "findClose (c # cs) =
     (if prefix ''}}'' (c # cs) then Some []
      else if lineTerminator c then None
      else map_option (\<lambda>n. c # n) (findClose cs))"

function matchAll :: "string \<Rightarrow> string list" where
  "matchAll [] = []"
| "matchAll (c # cs) =
     (if prefix ''{{'' (c # cs) then
        (case findClose (drop 2 (c # cs)) of
           Some n \<Rightarrow> (''{{'' @ n @ ''}}'') # matchAll (drop (2 + length n + 2) (c # cs))
         | None \<Rightarrow> matchAll cs)
      else matchAll cs)"
  by pat_completeness auto
termination
  by (relation "measure length") auto

text \<open>\<^verbatim>\<open>v.replace(/[{}]/g, '')\<close>: every brace removed.\<close>

definition stripBraces :: "string \<Rightarrow> string" where
  "stripBraces v = filter (\<lambda>c. c \<noteq> CHR ''{'' \<and> c \<noteq> CHR ''}'') v"

text \<open>\<^verbatim>\<open>Array.from(new Set(xs))\<close>: the first occurrence of each value, in order.\<close>

definition uniq :: "string list \<Rightarrow> string list" where
  "uniq xs = fold (\<lambda>x seen. if x \<in> set seen then seen else seen @ [x]) xs []"

text \<open>
  \<open>Object.values\<close> enumerates the values in the order the properties were created.
  \<open>objectValues\<close> is that list for a prompt built in the order of its interface (as
  the component's own literals are); \<open>detectIn\<close> is the detection on any list of
  values, whatever their order.
\<close>

definition objectValues :: "RiccePrompt \<Rightarrow> string list" where
  "objectValues p = [role p, instruction p, context_field p, constraints p, evaluation p]"

definition detectIn :: "string list \<Rightarrow> string list" where
  "detectIn vals = uniq (map stripBraces (matchAll (join_str '' '' vals)))"

definition detectedVars :: "RiccePrompt \<Rightarrow> string list" where
  "detectedVars promptData = detectIn (objectValues promptData)"

text \<open>
  A template in the sense of the specification: literal text without braces, and
  placeholders \<open>{{name}}\<close> whose name is an identifier on one line.
\<close>

datatype token = Lit string | Var string

fun render_token :: "token \<Rightarrow> string" where
  "render_token (Lit s) = s"
| "render_token (Var n) = placeholder n"

definition render :: "token list \<Rightarrow> string" where
  "render ts = concat (map render_token ts)"

fun tokenOk :: "token \<Rightarrow> bool" where
  "tokenOk (Lit s) = brace_free s"
| "tokenOk (Var n) = (brace_free n \<and> (\<forall>c \<in> set n. \<not> lineTerminator c))"

definition wellFormed :: "token list \<Rightarrow> bool" where
  "wellFormed ts \<longleftrightarrow> (\<forall>t \<in> set ts. tokenOk t)"

fun names :: "token list \<Rightarrow> string list" where
  "names [] = []"
| "names (Lit s # ts) = names ts"
| "names (Var n # ts) = n # names ts"

section \<open>The prompt chainer (PromptBuilder.tsx)\<close>

datatype status = Idle | Running | Completed | Error

record PromptChainStep =
  step_id :: string
  name :: string
  promptData :: RiccePrompt
  output_field :: "string option"
  status :: status

text \<open>
  \<^verbatim>\<open>
  const substituteAll = (text: string, currentStepIndex: number) => {
    let result = text;
    Object.entries(globalVariables).forEach(([key, val]) => {
      result = result.split(`{{${key}}}`).join(String(val));
    });
    steps.forEach((step, idx) => {
      if (idx < currentStepIndex && step.output) {
        result = result.split(`{{output_${idx + 1}}}`).join(step.output);
      }
    });
    return result;
  };
  \<close>
  \<open>steps\<close> is the list of step objects that \<open>forEach\<close> visits. An output is truthy
  when it is defined and not the empty string.
\<close>

definition substituteAll :: "scope \<Rightarrow> PromptChainStep list \<Rightarrow> string \<Rightarrow> nat \<Rightarrow> string" where
  "substituteAll globalVariables steps s currentStepIndex =
     (let result =
            fold (\<lambda>(key, val) result. join_str val (split_str (placeholder key) result))
              globalVariables s
      in fold (\<lambda>(idx, step) result.
                 (case output_field step of
                    Some out \<Rightarrow>
                      if idx < currentStepIndex \<and> out \<noteq> []
                      then join_str out
                             (split_str (''{{output_'' @ string_of_nat (idx + 1) @ ''}}'') result)
                      else result
                  | None \<Rightarrow> result))
           (enumerate 0 steps) result)"

text \<open>
  The entries that \<open>substituteAll\<close> applies after the global ones, in the order it
  applies them: \<open>output_(idx + 1)\<close> for each step before the current one whose output
  is truthy.
\<close>

definition outputEntries :: "PromptChainStep list \<Rightarrow> nat \<Rightarrow> scope" where
  "outputEntries steps currentStepIndex =
     concat (map (\<lambda>(idx, step).
                    (case output_field step of
                       Some out \<Rightarrow>
                         if idx < currentStepIndex \<and> out \<noteq> []
                         then [(''output_'' @ string_of_nat (idx + 1), out)]
                         else []
                     | None \<Rightarrow> []))
               (enumerate 0 steps))"

text \<open>
  The step objects live in a store, and an array of steps is a list of addresses:
  \<^verbatim>\<open>[...steps]\<close> copies the addresses, so \<open>updatedSteps\<close> and \<open>steps\<close> name the
  same objects, and what \<open>runChain\<close> writes through \<open>updatedSteps[i]\<close> is what
  \<open>substituteAll\<close> reads through \<open>steps\<close>.
\<close>

type_synonym heap = "nat \<Rightarrow> PromptChainStep"

text \<open>
  What one call of \<open>testPrompt\<close> does: the chunks it hands to \<open>onChunk\<close>, in order,
  and whether its promise then resolves (or rejects). The service is outside the
  program, so it is a parameter: the response to the \<open>n\<close>-th call of a run, given the
  prompt.
\<close>

record response =
  chunks :: "string list"
  resolves :: bool

type_synonym service = "nat \<Rightarrow> string \<Rightarrow> response"

text \<open>\<^verbatim>\<open>updatedSteps[i].output = (updatedSteps[i].output || '') + chunk\<close>\<close>

definition orEmpty :: "string option \<Rightarrow> string" where
  "orEmpty out = (case out of Some s \<Rightarrow> if s \<noteq> [] then s else [] | None \<Rightarrow> [])"

definition onChunk :: "nat \<Rightarrow> string \<Rightarrow> heap \<Rightarrow> heap" where
  "onChunk a chunk h = h(a := (h a)\<lparr>output_field := Some (orEmpty (output_field (h a)) @ chunk)\<rparr>)"

text \<open>The template literal that assembles the request, given the resolver.\<close>

definition fullPrompt :: "(string \<Rightarrow> string) \<Rightarrow> RiccePrompt \<Rightarrow> string" where
  "fullPrompt sub data =
     ''Role: '' @ sub (role data) @ [CHR 0x0A] @
     ''Instruction: '' @ sub (instruction data) @ [CHR 0x0A] @
     ''Context: '' @ sub (context_field data) @ [CHR 0x0A] @
     ''Constraints: '' @ sub (constraints data) @ [CHR 0x0A] @
     ''Evaluation: '' @ sub (evaluation data)"

text \<open>
  \<^verbatim>\<open>
  for (let i = 0; i < updatedSteps.length; i++) {
    updatedSteps[i].status = 'running';
    updatedSteps[i].output = '';
    const data = updatedSteps[i].promptData;
    const fullPrompt = `Role: ${substituteAll(data.role, i)}\n...`;
    try {
      await testPrompt(fullPrompt, (chunk) => {
        updatedSteps[i].output = (updatedSteps[i].output || '') + chunk;
      });
      updatedSteps[i].status = 'completed';
    } catch (err) {
      updatedSteps[i].status = 'error';
      break;
    }
  }
  \<close>
  The state of the loop is the store and the list of the requests made so far.
\<close>

function runLoop ::
  "service \<Rightarrow> scope \<Rightarrow> nat list \<Rightarrow> nat list \<Rightarrow> nat \<Rightarrow> heap \<times> string list \<Rightarrow> heap \<times> string list"
where
  "runLoop testPrompt globalVariables steps updatedSteps i (h, sent) =
     (if i < length updatedSteps then
        (let a = updatedSteps ! i;
             h1 = h(a := (h a)\<lparr>status := Running\<rparr>);
             h2 = h1(a := (h1 a)\<lparr>output_field := Some []\<rparr>);
             data = promptData (h2 a);
             request = fullPrompt (\<lambda>s. substituteAll globalVariables (map h2 steps) s i) data;
             r = testPrompt i request;
             h3 = fold (onChunk a) (chunks r) h2
         in if resolves r
            then runLoop testPrompt globalVariables steps updatedSteps (i + 1)
                   (h3(a := (h3 a)\<lparr>status := Completed\<rparr>), sent @ [request])
            else (h3(a := (h3 a)\<lparr>status := Error\<rparr>), sent @ [request]))
      else (h, sent))"
  by pat_completeness auto
termination
  by (relation "measure (\<lambda>(tp, gv, st, us, i, s). length us - i)") auto

text \<open>
  The component's state: the store, the \<open>steps\<close> array, \<open>isRunning\<close>,
  \<open>globalVariables\<close>, and the requests handed to the service by the last run.
\<close>

record chainer =
  store :: heap
  steps :: "nat list"
  isRunning :: bool
  globalVariables :: scope
  requests :: "string list"

text \<open>How the promise of an \<^verbatim>\<open>async\<close> function settles.\<close>

datatype 'a settled = Fulfilled 'a | Rejected string

text \<open>
  \<open>runChain\<close> has no \<^verbatim>\<open>return\<close> and catches what \<open>testPrompt\<close> throws, so its
  promise is fulfilled with \<^verbatim>\<open>undefined\<close>.
\<close>

definition runChain :: "service \<Rightarrow> chainer \<Rightarrow> unit settled \<times> chainer" where
  "runChain testPrompt c =
     (let c1 = c\<lparr>isRunning := True\<rparr>;
          updatedSteps = steps c1;
          (h, sent) = runLoop testPrompt (globalVariables c1) (steps c1) updatedSteps 0
                        (store c1, [])
      in (Fulfilled (), c1\<lparr>store := h, requests := sent, isRunning := False\<rparr>))"

text \<open>
  \<^verbatim>\<open>
  const addStep = () => {
    const prevStepIndex = steps.length;
    setSteps([...steps, { id: crypto.randomUUID(),
      name: `Stage ${prevStepIndex + 1}: Expansion`,
      promptData: { ... }, status: 'idle' }]);
  };
  const removeStep = (id: string) => {
    if (steps.length > 1) {
      setSteps(steps.filter(s => s.id !== id));
    }
  };
  \<close>
  The identifier that \<open>crypto.randomUUID()\<close> returns is an argument of \<open>addStep\<close>.
  The new object gets an address that no step of the array has.
\<close>

definition newAddress :: "nat list \<Rightarrow> nat" where
  "newAddress as = (if as = [] then 0 else Suc (Max (set as)))"

definition addStep :: "string \<Rightarrow> chainer \<Rightarrow> chainer" where
  "addStep uuid c =
     (let prevStepIndex = length (steps c);
          a = newAddress (steps c);
          step = \<lparr>step_id = uuid,
                  name = ''Stage '' @ string_of_nat (prevStepIndex + 1) @ '': Expansion'',
                  promptData = \<lparr>role = ''Creative Director'',
                    instruction = ''Based on Stage '' @ string_of_nat prevStepIndex @
                      '' output, expand on the third theme: {{output_'' @
                      string_of_nat prevStepIndex @ ''}}.'',
                    context_field = ''Turning research into a creative campaign.'',
                    constraints = ''Narrative tone.'',
                    evaluation = ''Compelling storytelling.''\<rparr>,
                  output_field = None,
                  status = Idle\<rparr>
      in c\<lparr>store := (store c)(a := step), steps := steps c @ [a]\<rparr>)"

definition removeStep :: "string \<Rightarrow> chainer \<Rightarrow> chainer" where
  "removeStep i c =
     (if length (steps c) > 1
      then c\<lparr>steps := filter (\<lambda>a. step_id (store c a) \<noteq> i) (steps c)\<rparr>
      else c)"

datatype operation = AddStep string | RemoveStep string

fun perform :: "operation \<Rightarrow> chainer \<Rightarrow> chainer" where
  "perform (AddStep uuid) c = addStep uuid c"
| "perform (RemoveStep i) c = removeStep i c"

text \<open>
  The identifiers of the steps of the array, and the sequences of operations in which
  every \<open>addStep\<close> gets an identifier that no step of the array has at that moment,
  as \<open>crypto.randomUUID()\<close> promises.
\<close>

definition stepIds :: "chainer \<Rightarrow> string list" where
  "stepIds c = map (\<lambda>a. step_id (store c a)) (steps c)"

fun freshIds :: "chainer \<Rightarrow> operation list \<Rightarrow> bool" where
  "freshIds c [] = True"
| "freshIds c (AddStep uuid # ops) =
     (uuid \<notin> set (stepIds c) \<and> freshIds (addStep uuid c) ops)"
| "freshIds c (RemoveStep i # ops) = freshIds (removeStep i c) ops"

text \<open>
  Two readings used in the statements about a run. The request of the step at index
  \<open>i\<close> of the array \<open>st\<close>, computed in the store \<open>h\<close>; and a step object after
  its call has settled with response \<open>r\<close>.
\<close>

definition stageRequest :: "scope \<Rightarrow> nat list \<Rightarrow> heap \<Rightarrow> nat \<Rightarrow> string" where
  "stageRequest gv st h i =
     fullPrompt (\<lambda>s. substituteAll gv (map h st) s i) (promptData (h (st ! i)))"

definition settle :: "response \<Rightarrow> PromptChainStep \<Rightarrow> PromptChainStep" where
  "settle r s =
     s\<lparr>output_field := Some (concat (chunks r)),
       status := (if resolves r then Completed else Error)\<rparr>"

text \<open>
  Concrete inputs for the examples: a step as the component creates it (idle, no output
  yet) with a given instruction; a store of three such steps; a chain over it; a
  service that streams given chunks and resolves; and a service whose call number \<open>m\<close>
  rejects.
\<close>

definition stepWith :: "string \<Rightarrow> string \<Rightarrow> PromptChainStep" where
  "stepWith u ins =
     \<lparr>step_id = u, name = u,
      promptData = \<lparr>role = [], instruction = ins, context_field = [], constraints = [],
                    evaluation = []\<rparr>,
      output_field = None, status = Idle\<rparr>"

definition exampleStore :: heap where
  "exampleStore a =
     (if a = 0 then stepWith ''u1'' ''Summarize {{topic}}''
      else if a = 1 then stepWith ''u2'' ''{{output_1}}''
      else stepWith ''u3'' ''Refine {{output_2}}'')"

definition exampleChain :: "scope \<Rightarrow> nat list \<Rightarrow> chainer" where
  "exampleChain gv st =
     \<lparr>store = exampleStore, steps = st, isRunning = False, globalVariables = gv,
      requests = []\<rparr>"

definition streams :: "string list \<Rightarrow> service" where
  "streams cs n p = \<lparr>chunks = cs, resolves = True\<rparr>"

definition rejectsAt :: "nat \<Rightarrow> service" where
  "rejectsAt m n p = \<lparr>chunks = [''ok''], resolves = (n \<noteq> m)\<rparr>"

text \<open>The chain has a step, and no two steps share an identifier.\<close>

definition chainOk :: "chainer \<Rightarrow> bool" where
  "chainOk c \<longleftrightarrow> steps c \<noteq> [] \<and> distinct (stepIds c)"

declare runLoop.simps [simp del]

declare string_of_nat.simps [simp del]

section \<open>One pass of split and join\<close>

lemma splitFrom_not_Nil: "splitFrom sep cur s \<noteq> []"
  by (induction sep cur s rule: splitFrom.induct) auto

lemma join_str_Cons: "ps \<noteq> [] \<Longrightarrow> join_str val (p # ps) = p @ val @ join_str val ps"
  by (cases ps) auto

lemma join_splitFrom:
  "join_str val (splitFrom sep cur s) = cur @ replaceAll sep val s"
  by (induction sep cur s rule: splitFrom.induct)
     (auto simp: join_str_Cons splitFrom_not_Nil)

lemma join_split:
  "sep \<noteq> [] \<Longrightarrow> join_str val (split_str sep s) = replaceAll sep val s"
  by (simp add: split_str_def join_splitFrom)

lemma placeholder_not_Nil: "placeholder key \<noteq> []"
  by (simp add: placeholder_def)

lemma substituteVars_replaceAll:
  "substituteVars variables s =
     fold (\<lambda>(key, val). replaceAll (placeholder key) val) variables s"
  unfolding substituteVars_def
  by (induction variables arbitrary: s) (auto simp: join_split placeholder_not_Nil)

lemma substituteVars_Nil: "substituteVars [] s = s"
  by (simp add: substituteVars_def)

lemma substituteVars_Cons:
  "substituteVars ((k, v) # S) s = substituteVars S (replaceAll (placeholder k) v s)"
  by (simp add: substituteVars_replaceAll)

lemma substituteVars_append:
  "substituteVars (S1 @ S2) s = substituteVars S2 (substituteVars S1 s)"
  by (simp add: substituteVars_def)

lemma replaceAll_absent:
  "\<not> sublist sep s \<Longrightarrow> replaceAll sep val s = s"
proof (induction sep val s rule: replaceAll.induct)
  case (1 sep val)
  then show ?case by simp
next
  case (2 sep val c cs)
  from 2(3) have np: "\<not> prefix sep (c # cs)"
    using prefix_imp_sublist by blast
  from 2(3) have "\<not> sublist sep cs" by (auto simp: sublist_Cons_right)
  with 2 np show ?case by simp
qed

lemma replaceAll_match:
  "sep \<noteq> [] \<Longrightarrow> replaceAll sep val (sep @ r) = val @ replaceAll sep val r"
  by (cases sep) auto

text \<open>
  The pass over \<open>a @ r\<close> is the pass over \<open>a\<close> followed by the pass over \<open>r\<close> when
  no occurrence of \<open>sep\<close> that starts in \<open>a\<close> reaches into \<open>r\<close>.
\<close>

lemma replaceAll_append:
  "(\<And>s. s \<noteq> [] \<Longrightarrow> suffix s a \<Longrightarrow> prefix sep (s @ r) \<Longrightarrow> prefix sep s) \<Longrightarrow>
   replaceAll sep val (a @ r) = replaceAll sep val a @ replaceAll sep val r"
proof (induction sep val a rule: replaceAll.induct)
  case (1 sep val)
  then show ?case by simp
next
  case (2 sep val c cs)
  show ?case
  proof (cases "sep \<noteq> [] \<and> prefix sep (c # cs)")
    case True
    then obtain zs where zs: "c # cs = sep @ zs" by (auto simp: prefix_def)
    have suf: "suffix zs (c # cs)" using zs by (simp add: suffix_def)
    have "replaceAll sep val (zs @ r) = replaceAll sep val zs @ replaceAll sep val r"
    proof -
      have "replaceAll sep val (drop (length sep) (c # cs) @ r) =
            replaceAll sep val (drop (length sep) (c # cs)) @ replaceAll sep val r"
      proof (rule 2(1)[OF True])
        fix s assume s: "s \<noteq> []" "suffix s (drop (length sep) (c # cs))" "prefix sep (s @ r)"
        from s(2) have "suffix s (c # cs)" using zs suf by (simp add: suffix_order.trans)
        with s show "prefix sep s" using 2(3) by blast
      qed
      then show ?thesis using zs by simp
    qed
    moreover have "replaceAll sep val ((c # cs) @ r) = val @ replaceAll sep val (zs @ r)"
      using True zs replaceAll_match[of sep val "zs @ r"] by simp
    moreover have "replaceAll sep val (c # cs) = val @ replaceAll sep val zs"
      using True zs replaceAll_match[of sep val zs] by simp
    ultimately show ?thesis by simp
  next
    case False
    have np: "\<not> (sep \<noteq> [] \<and> prefix sep ((c # cs) @ r))"
    proof
      assume a: "sep \<noteq> [] \<and> prefix sep ((c # cs) @ r)"
      then have "prefix sep (c # cs)" using 2(3)[of "c # cs"] by simp
      with a False show False by simp
    qed
    have "replaceAll sep val (cs @ r) = replaceAll sep val cs @ replaceAll sep val r"
    proof (rule 2(2)[OF False])
      fix s assume s: "s \<noteq> []" "suffix s cs" "prefix sep (s @ r)"
      then show "prefix sep s" using 2(3)[of s] by (simp add: suffix_Cons)
    qed
    moreover have "replaceAll sep val (c # cs) = c # replaceAll sep val cs"
      using False by auto
    moreover have "replaceAll sep val ((c # cs) @ r) = c # replaceAll sep val (cs @ r)"
      using np by auto
    ultimately show ?thesis by simp
  qed
qed

section \<open>Placeholders of identifiers do not overlap\<close>

lemma prefix_before_char:
  "c \<notin> set w \<Longrightarrow> prefix w (s @ c # r) \<Longrightarrow> prefix w s"
proof (induction s arbitrary: w)
  case Nil
  then show ?case by (cases w) auto
next
  case (Cons a s)
  then show ?case by (cases w) auto
qed

lemma no_straddle_placeholder:
  assumes "CHR ''{'' \<notin> set k" "s \<noteq> []" "prefix (placeholder k) (s @ ''{{'' @ r)"
  shows "prefix (placeholder k) s"
proof (cases s)
  case Nil
  with assms show ?thesis by simp
next
  case (Cons c1 s1)
  note s = Cons
  show ?thesis
  proof (cases s1)
    case Nil
    with s assms(3) have "prefix (k @ ''}}'') (CHR ''{'' # r)"
      by (auto simp: placeholder_def)
    with assms(1) show ?thesis by (cases k) auto
  next
    case (Cons c2 s2)
    with s assms(3) have c: "c1 = CHR ''{''" "c2 = CHR ''{''"
      and p: "prefix (k @ ''}}'') (s2 @ CHR ''{'' # CHR ''{'' # r)"
      by (auto simp: placeholder_def)
    have "CHR ''{'' \<notin> set (k @ ''}}'')" using assms(1) by simp
    from prefix_before_char[OF this p] show ?thesis
      using s Cons c by (simp add: placeholder_def)
  qed
qed

lemma replaceAll_through:
  "CHR ''{'' \<notin> set w \<Longrightarrow>
   replaceAll (placeholder k) val (w @ b) = w @ replaceAll (placeholder k) val b"
  by (induction w) (auto simp: placeholder_def)

lemma placeholder_prefix_same:
  "CHR ''}'' \<notin> set k \<Longrightarrow> CHR ''}'' \<notin> set n \<Longrightarrow>
   prefix (k @ ''}}'') (n @ ''}}'' @ b) \<Longrightarrow> k = n"
proof (induction k arbitrary: n)
  case Nil
  then show ?case by (cases n) auto
next
  case (Cons a k)
  then show ?case by (cases n) auto
qed

lemma replaceAll_other_placeholder:
  assumes "brace_free k" "brace_free n" "k \<noteq> n"
  shows "replaceAll (placeholder k) val (placeholder n @ b) =
         placeholder n @ replaceAll (placeholder k) val b"
proof -
  have 1: "\<not> prefix (placeholder k) (placeholder n @ b)"
    using assms placeholder_prefix_same[of k n b]
    by (auto simp: placeholder_def brace_free_def)
  have 2: "\<not> prefix (placeholder k) (CHR ''{'' # n @ ''}}'' @ b)"
    using assms by (cases n) (auto simp: placeholder_def brace_free_def)
  have 3: "replaceAll (placeholder k) val ((n @ ''}}'') @ b) =
           (n @ ''}}'') @ replaceAll (placeholder k) val b"
    using assms by (intro replaceAll_through) (auto simp: brace_free_def)
  have "replaceAll (placeholder k) val (placeholder n @ b) =
        CHR ''{'' # replaceAll (placeholder k) val (CHR ''{'' # n @ ''}}'' @ b)"
    using 1 by (simp add: placeholder_def[of n])
  also have "\<dots> = CHR ''{'' # CHR ''{'' # replaceAll (placeholder k) val ((n @ ''}}'') @ b)"
    using 2 by simp
  finally show ?thesis using 3 by (simp add: placeholder_def[of n])
qed

lemma replaceAll_keep_placeholder:
  assumes "brace_free k" "brace_free n" "k \<noteq> n"
  shows "replaceAll (placeholder k) val (a @ placeholder n @ b) =
         replaceAll (placeholder k) val a @ placeholder n @ replaceAll (placeholder k) val b"
proof -
  have "replaceAll (placeholder k) val (a @ placeholder n @ b) =
        replaceAll (placeholder k) val a @ replaceAll (placeholder k) val (placeholder n @ b)"
  proof (rule replaceAll_append)
    fix s assume "s \<noteq> []" "suffix s a" "prefix (placeholder k) (s @ placeholder n @ b)"
    then show "prefix (placeholder k) s"
      using no_straddle_placeholder[of k s "n @ ''}}'' @ b"] assms(1)
      by (simp add: placeholder_def[of n] brace_free_def)
  qed
  then show ?thesis using replaceAll_other_placeholder[OF assms] by simp
qed

lemma replaceAll_at_placeholder:
  assumes "CHR ''{'' \<notin> set k"
  shows "replaceAll (placeholder k) val (a @ placeholder k @ b) =
         replaceAll (placeholder k) val a @ val @ replaceAll (placeholder k) val b"
proof -
  have "replaceAll (placeholder k) val (a @ placeholder k @ b) =
        replaceAll (placeholder k) val a @ replaceAll (placeholder k) val (placeholder k @ b)"
  proof (rule replaceAll_append)
    fix s assume "s \<noteq> []" "suffix s a" "prefix (placeholder k) (s @ placeholder k @ b)"
    then show "prefix (placeholder k) s"
      using no_straddle_placeholder[of k s "k @ ''}}'' @ b"] assms(1)
      by (simp add: placeholder_def[of k])
  qed
  then show ?thesis using replaceAll_match[OF placeholder_not_Nil] by simp
qed

lemma substituteVars_keep_placeholder:
  "brace_free n \<Longrightarrow> (\<forall>k \<in> fst ` set S. brace_free k \<and> k \<noteq> n) \<Longrightarrow>
   substituteVars S (a @ placeholder n @ b) =
     substituteVars S a @ placeholder n @ substituteVars S b"
proof (induction S arbitrary: a b)
  case Nil
  then show ?case by (simp add: substituteVars_Nil)
next
  case (Cons e S)
  obtain k v where e: "e = (k, v)" by (cases e)
  with Cons.prems have kf: "brace_free k" "k \<noteq> n" by auto
  from Cons.prems have rest: "\<forall>k \<in> fst ` set S. brace_free k \<and> k \<noteq> n" by auto
  show ?case
    unfolding e substituteVars_Cons
    by (simp add: replaceAll_keep_placeholder[OF kf(1) Cons.prems(1) kf(2)]
                  Cons.IH[OF Cons.prems(1) rest])
qed

lemma substituteVars_settled:
  "(\<forall>k \<in> fst ` set S. \<not> sublist (placeholder k) s) \<Longrightarrow> substituteVars S s = s"
proof (induction S)
  case Nil
  then show ?case by (simp add: substituteVars_Nil)
next
  case (Cons e S)
  obtain k v where e: "e = (k, v)" by (cases e)
  with Cons show ?case by (simp add: substituteVars_Cons replaceAll_absent)
qed

section \<open>The scope that the chainer applies\<close>

lemma fold_concat_map:
  "(\<And>p r. f p r = fold g (H p) r) \<Longrightarrow> fold f ps r = fold g (concat (map H ps)) r"
  by (induction ps arbitrary: r) auto

lemma output_key: "''{{output_'' @ m @ ''}}'' = placeholder (''output_'' @ m)"
  by (simp add: placeholder_def)

lemma substituteAll_scope:
  "substituteAll gv xs s i = substituteVars (gv @ outputEntries xs i) s"
proof -
  let ?g = "\<lambda>(key, val) result. join_str val (split_str (placeholder key) result)"
  let ?H = "\<lambda>(idx, step).
              (case output_field step of
                 Some out \<Rightarrow>
                   if idx < i \<and> out \<noteq> []
                   then [(''output_'' @ string_of_nat (idx + 1), out)]
                   else []
               | None \<Rightarrow> [])"
  let ?f = "\<lambda>(idx, step) result.
              (case output_field step of
                 Some out \<Rightarrow>
                   if idx < i \<and> out \<noteq> []
                   then join_str out
                          (split_str (''{{output_'' @ string_of_nat (idx + 1) @ ''}}'') result)
                   else result
               | None \<Rightarrow> result)"
  have "\<And>p r. ?f p r = fold ?g (?H p) r"
    by (auto simp: placeholder_def split: option.splits)
  then have "\<And>r. fold ?f (enumerate 0 xs) r = fold ?g (concat (map ?H (enumerate 0 xs))) r"
    by (rule fold_concat_map)
  then show ?thesis
    by (simp add: substituteAll_def substituteVars_def outputEntries_def Let_def)
qed

section \<open>Decimal numbers hold no brace\<close>

lemma digit_not_brace:
  "d < 10 \<Longrightarrow> digit d \<noteq> CHR ''{'' \<and> digit d \<noteq> CHR ''}''"
proof -
  assume "d < 10"
  then have "digit d \<in> set ''0123456789''"
    unfolding digit_def by (intro nth_mem) simp
  then show ?thesis by auto
qed

lemma string_of_nat_brace_free: "brace_free (string_of_nat n)"
proof (induction n rule: string_of_nat.induct)
  case (1 n)
  show ?case
  proof (cases "n < 10")
    case True
    then show ?thesis using digit_not_brace[of n]
      by (subst string_of_nat.simps) (auto simp: brace_free_def)
  next
    case False
    have "n mod 10 < 10" by simp
    from digit_not_brace[OF this] 1[OF False] False show ?thesis
      by (subst string_of_nat.simps) (auto simp: brace_free_def)
  qed
qed

lemma outputEntries_brace_free:
  "\<forall>k \<in> fst ` set (outputEntries xs i). brace_free k"
  using string_of_nat_brace_free
  by (auto simp: outputEntries_def brace_free_def split: option.splits if_splits)

section \<open>Adding and removing steps\<close>

lemma newAddress_fresh: "newAddress as \<notin> set as"
proof (cases "as = []")
  case True
  then show ?thesis by simp
next
  case False
  have "Suc (Max (set as)) \<notin> set as"
  proof
    assume "Suc (Max (set as)) \<in> set as"
    then have "Suc (Max (set as)) \<le> Max (set as)" by (intro Max_ge) auto
    then show False by simp
  qed
  with False show ?thesis by (simp add: newAddress_def)
qed

lemma steps_addStep: "steps (addStep uuid c) = steps c @ [newAddress (steps c)]"
  by (simp add: addStep_def Let_def)

lemma stepIds_addStep: "stepIds (addStep uuid c) = stepIds c @ [uuid]"
  using newAddress_fresh[of "steps c"]
  by (auto simp: addStep_def stepIds_def Let_def)

lemma stepIds_removeStep:
  "stepIds (removeStep i c) =
     (if length (steps c) > 1 then filter (\<lambda>u. u \<noteq> i) (stepIds c) else stepIds c)"
  by (simp add: removeStep_def stepIds_def filter_map comp_def)

lemma length_stepIds: "length (stepIds c) = length (steps c)"
  by (simp add: stepIds_def)

lemma filter_other_not_Nil:
  "distinct us \<Longrightarrow> length us > 1 \<Longrightarrow> filter (\<lambda>u. u \<noteq> i) us \<noteq> []"
proof -
  assume d: "distinct us" and l: "length us > 1"
  then obtain x y zs where us: "us = x # y # zs" by (cases us; cases "tl us") auto
  with d have "x \<noteq> y" by simp
  then have "x \<noteq> i \<or> y \<noteq> i" by auto
  then show ?thesis using us by (auto simp: filter_empty_conv)
qed

lemma chainOk_addStep: "chainOk c \<Longrightarrow> uuid \<notin> set (stepIds c) \<Longrightarrow> chainOk (addStep uuid c)"
  by (simp add: chainOk_def steps_addStep stepIds_addStep)

lemma chainOk_removeStep: "chainOk c \<Longrightarrow> chainOk (removeStep i c)"
proof -
  assume ok: "chainOk c"
  show ?thesis
  proof (cases "length (steps c) > 1")
    case True
    have "stepIds (removeStep i c) \<noteq> []"
      using ok True filter_other_not_Nil[of "stepIds c" i]
      by (simp add: stepIds_removeStep chainOk_def length_stepIds)
    then have "steps (removeStep i c) \<noteq> []" by (simp add: stepIds_def)
    then show ?thesis using ok True by (simp add: chainOk_def stepIds_removeStep)
  next
    case False
    then show ?thesis using ok by (simp add: removeStep_def)
  qed
qed

lemma chainOk_fold: "chainOk c \<Longrightarrow> freshIds c ops \<Longrightarrow> chainOk (fold perform ops c)"
proof (induction ops arbitrary: c)
  case Nil
  then show ?case by simp
next
  case (Cons op ops)
  then show ?case
    by (cases op) (auto simp: chainOk_addStep chainOk_removeStep)
qed

section \<open>Variable discovery on templates\<close>

lemma set_uniq_fold:
  "set (fold (\<lambda>x seen. if x \<in> set seen then seen else seen @ [x]) xs acc) = set xs \<union> set acc"
  by (induction xs arbitrary: acc) auto

lemma distinct_uniq_fold:
  "distinct acc \<Longrightarrow>
   distinct (fold (\<lambda>x seen. if x \<in> set seen then seen else seen @ [x]) xs acc)"
  by (induction xs arbitrary: acc) auto

lemma set_uniq: "set (uniq xs) = set xs"
  by (simp add: uniq_def set_uniq_fold)

lemma distinct_uniq: "distinct (uniq xs)"
  by (simp add: uniq_def distinct_uniq_fold)

lemma matchAll_skip: "CHR ''{'' \<notin> set s \<Longrightarrow> matchAll (s @ r) = matchAll r"
  by (induction s) auto

lemma findClose_name:
  "CHR ''}'' \<notin> set n \<Longrightarrow> \<forall>c \<in> set n. \<not> lineTerminator c \<Longrightarrow>
   findClose (n @ ''}}'' @ r) = Some n"
  by (induction n) auto

lemma matchAll_placeholder:
  "CHR ''}'' \<notin> set n \<Longrightarrow> \<forall>c \<in> set n. \<not> lineTerminator c \<Longrightarrow>
   matchAll (placeholder n @ r) = placeholder n # matchAll r"
  using findClose_name[of n r] by (simp add: placeholder_def)

lemma matchAll_render:
  "wellFormed ts \<Longrightarrow> matchAll (render ts @ r) = map placeholder (names ts) @ matchAll r"
proof (induction ts)
  case Nil
  then show ?case by (simp add: render_def)
next
  case (Cons t ts)
  then have ih: "matchAll (render ts @ r) = map placeholder (names ts) @ matchAll r"
    by (simp add: wellFormed_def)
  from Cons.prems have ok: "tokenOk t" by (simp add: wellFormed_def)
  show ?case
  proof (cases t)
    case (Lit s)
    with ok ih show ?thesis
      by (simp add: render_def matchAll_skip brace_free_def)
  next
    case (Var n)
    with ok ih show ?thesis
      by (simp add: render_def matchAll_placeholder brace_free_def)
  qed
qed

lemma names_wellFormed: "wellFormed ts \<Longrightarrow> \<forall>n \<in> set (names ts). brace_free n"
  by (induction ts rule: names.induct) (auto simp: wellFormed_def)

lemma stripBraces_placeholder: "brace_free n \<Longrightarrow> stripBraces (placeholder n) = n"
  by (auto simp: stripBraces_def placeholder_def brace_free_def filter_id_conv)

lemma matchAll_join:
  "\<forall>ts \<in> set tss. wellFormed ts \<Longrightarrow>
   matchAll (join_str '' '' (map render tss)) = map placeholder (concat (map names tss))"
proof (induction tss rule: induct_list012)
  case 1
  then show ?case by simp
next
  case (2 ts)
  then show ?case using matchAll_render[of ts "[]"] by simp
next
  case (3 ts us tss)
  have "matchAll (render ts @ '' '' @ join_str '' '' (map render (us # tss))) =
        map placeholder (names ts) @ matchAll ('' '' @ join_str '' '' (map render (us # tss)))"
    using 3(3) by (intro matchAll_render) simp
  also have "matchAll ('' '' @ join_str '' '' (map render (us # tss))) =
        matchAll (join_str '' '' (map render (us # tss)))"
    by simp
  finally show ?case using 3 by simp
qed

lemma set_detectIn:
  assumes "\<forall>ts \<in> set tss. wellFormed ts"
  shows "set (detectIn (map render tss)) = (\<Union>ts \<in> set tss. set (names ts))"
proof -
  have "\<forall>n \<in> set (concat (map names tss)). brace_free n"
    using assms names_wellFormed by auto
  then have "map (\<lambda>n. stripBraces (placeholder n)) (concat (map names tss)) =
             concat (map names tss)"
    by (intro map_idI) (auto simp: stripBraces_placeholder)
  then show ?thesis
    using matchAll_join[OF assms] by (simp add: detectIn_def set_uniq comp_def)
qed

section \<open>A run of the chain\<close>

lemma fold_onChunk_other: "b \<noteq> a \<Longrightarrow> fold (onChunk a) cs h b = h b"
  by (induction cs arbitrary: h) (auto simp: onChunk_def)

lemma fold_onChunk_same:
  "output_field (h a) = Some s \<Longrightarrow>
   fold (onChunk a) cs h a = (h a)\<lparr>output_field := Some (s @ concat cs)\<rparr>"
proof (induction cs arbitrary: h s)
  case Nil
  then show ?case by simp
next
  case (Cons c cs)
  have "output_field (onChunk a c h a) = Some (s @ c)"
    using Cons.prems by (simp add: onChunk_def orEmpty_def)
  from Cons.IH[of "onChunk a c h" "s @ c", OF this] show ?case
    by (simp add: onChunk_def)
qed

lemma fold_onChunk:
  "output_field (h a) = Some s \<Longrightarrow>
   fold (onChunk a) cs h = h(a := (h a)\<lparr>output_field := Some (s @ concat cs)\<rparr>)"
  by (rule ext) (simp add: fold_onChunk_other fold_onChunk_same)

lemma runLoop_stop: "\<not> i < length us \<Longrightarrow> runLoop tp gv st us i (h, sent) = (h, sent)"
  by (simp add: runLoop.simps)

lemma runLoop_step:
  assumes "i < length st"
  shows "runLoop tp gv st st i (h, sent) =
     (let a = st ! i;
          h2 = h(a := (h a)\<lparr>status := Running, output_field := Some []\<rparr>);
          p = stageRequest gv st h2 i;
          r = tp i p;
          h4 = h(a := settle r (h a))
      in if resolves r then runLoop tp gv st st (i + 1) (h4, sent @ [p])
         else (h4, sent @ [p]))"
proof -
  let ?a = "st ! i"
  let ?h2 = "h(?a := (h ?a)\<lparr>status := Running, output_field := Some []\<rparr>)"
  have f: "\<And>cs. fold (onChunk ?a) cs ?h2 =
             ?h2(?a := (?h2 ?a)\<lparr>output_field := Some ([] @ concat cs)\<rparr>)"
    by (rule fold_onChunk) simp
  show ?thesis
    using assms
    by (subst runLoop.simps) (simp add: Let_def f stageRequest_def settle_def)
qed

lemma nth_in_drop: "i < length st \<Longrightarrow> st ! i \<in> set (drop i st)"
  by (metis Cons_nth_drop_Suc list.set_intros(1))

lemma runLoop_frame:
  "b \<notin> set (drop i st) \<Longrightarrow> fst (runLoop tp gv st st i (h, sent)) b = h b"
proof (induction "length st - i" arbitrary: i h sent)
  case 0
  then show ?case by (simp add: runLoop_stop)
next
  case (Suc n)
  then have i: "i < length st" by simp
  have ne: "st ! i \<noteq> b" using nth_in_drop[OF i] Suc.prems by auto
  have nb: "b \<notin> set (drop (i + 1) st)"
    using Suc.prems by (metis Suc_eq_plus1 in_set_dropD drop_Suc tl_drop set_drop_subset subsetD
        list.set_sel(2) drop_eq_Nil2 leD i)
  have n: "n = length st - (i + 1)" using Suc(2) by simp
  show ?case
    using Suc(1)[OF n nb] ne
    by (simp add: runLoop_step[OF i] Let_def)
qed

lemma runLoop_sent:
  "\<exists>ext. snd (runLoop tp gv st st i (h, sent)) = sent @ ext \<and> length ext \<le> length st - i"
proof (induction "length st - i" arbitrary: i h sent)
  case 0
  then show ?case by (simp add: runLoop_stop)
next
  case (Suc n)
  then have i: "i < length st" by simp
  have n: "n = length st - (i + 1)" using Suc(2) by simp
  let ?a = "st ! i"
  let ?p = "stageRequest gv st (h(?a := (h ?a)\<lparr>status := Running, output_field := Some []\<rparr>)) i"
  let ?h4 = "h(?a := settle (tp i ?p) (h ?a))"
  show ?case
  proof (cases "resolves (tp i ?p)")
    case True
    from Suc(1)[OF n, of ?h4 "sent @ [?p]"] obtain ext where
      e: "snd (runLoop tp gv st st (i + 1) (?h4, sent @ [?p])) = (sent @ [?p]) @ ext"
         "length ext \<le> length st - (i + 1)" by blast
    have "snd (runLoop tp gv st st i (h, sent)) = sent @ (?p # ext)"
      using True e(1) by (simp add: runLoop_step[OF i] Let_def)
    moreover have "length (?p # ext) \<le> length st - i" using e(2) i by simp
    ultimately show ?thesis by blast
  next
    case False
    then have "snd (runLoop tp gv st st i (h, sent)) = sent @ [?p]"
      by (simp add: runLoop_step[OF i] Let_def)
    moreover have "length [?p] \<le> length st - i" using i by simp
    ultimately show ?thesis by blast
  qed
qed

lemma runLoop_unroll:
  assumes "i < length st"
  obtains p h4 where
    "p = stageRequest gv st (h(st ! i := (h (st ! i))\<lparr>status := Running, output_field := Some []\<rparr>)) i"
    "h4 = h(st ! i := settle (tp i p) (h (st ! i)))"
    "resolves (tp i p) \<Longrightarrow>
       runLoop tp gv st st i (h, sent) = runLoop tp gv st st (i + 1) (h4, sent @ [p])"
    "\<not> resolves (tp i p) \<Longrightarrow> runLoop tp gv st st i (h, sent) = (h4, sent @ [p])"
  using assms by (simp add: runLoop_step Let_def)

lemma nth_not_in_drop:
  "distinct st \<Longrightarrow> k < m \<Longrightarrow> m \<le> length st \<Longrightarrow> st ! k \<notin> set (drop m st)"
proof -
  assume d: "distinct st" and k: "k < m" and m: "m \<le> length st"
  have "st ! k \<in> set (take m st)" using k m by (simp add: in_set_conv_nth) (metis nth_take min.absorb2 length_take)
  moreover have "set (take m st) \<inter> set (drop m st) = {}"
    using d by (metis append_take_drop_id distinct_append)
  ultimately show ?thesis by blast
qed

lemma outputEntries_cong_from:
  "length xs = length ys \<Longrightarrow>
   (\<forall>k < length xs. n + k < i \<longrightarrow> output_field (xs ! k) = output_field (ys ! k)) \<Longrightarrow>
   concat (map (\<lambda>(idx, step).
                    (case output_field step of
                       Some out \<Rightarrow>
                         if idx < i \<and> out \<noteq> []
                         then [(''output_'' @ string_of_nat (idx + 1), out)]
                         else []
                     | None \<Rightarrow> []))
               (enumerate n xs)) =
   concat (map (\<lambda>(idx, step).
                    (case output_field step of
                       Some out \<Rightarrow>
                         if idx < i \<and> out \<noteq> []
                         then [(''output_'' @ string_of_nat (idx + 1), out)]
                         else []
                     | None \<Rightarrow> []))
               (enumerate n ys))"
proof (induction xs arbitrary: ys n)
  case Nil
  then show ?case by simp
next
  case (Cons x xs)
  then obtain y ys' where ys: "ys = y # ys'" by (cases ys) auto
  have hd: "n < i \<longrightarrow> output_field x = output_field y"
    using Cons.prems(2) ys by (metis add.right_neutral length_greater_0_conv list.discI nth_Cons_0)
  have tl: "\<forall>k < length xs. Suc n + k < i \<longrightarrow> output_field (xs ! k) = output_field (ys' ! k)"
  proof (intro allI impI)
    fix k assume "k < length xs" "Suc n + k < i"
    then show "output_field (xs ! k) = output_field (ys' ! k)"
      using Cons.prems(2)[rule_format, of "Suc k"] ys by simp
  qed
  have len: "length xs = length ys'" using Cons.prems(1) ys by simp
  show ?case
    using Cons.IH[OF len tl] hd ys
    by (auto split: option.splits)
qed

lemma outputEntries_cong:
  "length xs = length ys \<Longrightarrow>
   (\<forall>k < length xs. k < i \<longrightarrow> output_field (xs ! k) = output_field (ys ! k)) \<Longrightarrow>
   outputEntries xs i = outputEntries ys i"
  unfolding outputEntries_def by (rule outputEntries_cong_from) simp_all

lemma stageRequest_cong:
  assumes "\<forall>k < i. k < length st \<longrightarrow> output_field (h1 (st ! k)) = output_field (h2 (st ! k))"
    and "promptData (h1 (st ! i)) = promptData (h2 (st ! i))"
  shows "stageRequest gv st h1 i = stageRequest gv st h2 i"
proof -
  have "outputEntries (map h1 st) i = outputEntries (map h2 st) i"
    using assms(1) by (intro outputEntries_cong) simp_all
  then show ?thesis
    using assms(2) by (simp add: stageRequest_def substituteAll_scope)
qed

lemma runLoop_length:
  "length sent = i \<Longrightarrow> i \<le> length st \<Longrightarrow>
   length (snd (runLoop tp gv st st i (h, sent))) \<le> length st \<and>
   i \<le> length (snd (runLoop tp gv st st i (h, sent))) \<and>
   take i (snd (runLoop tp gv st st i (h, sent))) = sent"
  using runLoop_sent[of tp gv st i h sent] by auto

lemma runLoop_stage:
  assumes "distinct st"
  shows "length sent = i \<Longrightarrow> i \<le> j \<Longrightarrow> j < length (snd (runLoop tp gv st st i (h, sent))) \<Longrightarrow>
     snd (runLoop tp gv st st i (h, sent)) ! j =
       stageRequest gv st (fst (runLoop tp gv st st i (h, sent))) j \<and>
     fst (runLoop tp gv st st i (h, sent)) (st ! j) =
       settle (tp j (snd (runLoop tp gv st st i (h, sent)) ! j)) (h (st ! j))"
proof (induction "length st - i" arbitrary: i h sent)
  case 0
  then show ?case by (simp add: runLoop_stop)
next
  case (Suc n)
  then have i: "i < length st" by simp
  have n: "n = length st - (i + 1)" using Suc(2) by simp
  let ?h2 = "h(st ! i := (h (st ! i))\<lparr>status := Running, output_field := Some []\<rparr>)"
  obtain p h4 where p: "p = stageRequest gv st ?h2 i"
    and h4: "h4 = h(st ! i := settle (tp i p) (h (st ! i)))"
    and yes: "resolves (tp i p) \<Longrightarrow>
       runLoop tp gv st st i (h, sent) = runLoop tp gv st st (i + 1) (h4, sent @ [p])"
    and no: "\<not> resolves (tp i p) \<Longrightarrow> runLoop tp gv st st i (h, sent) = (h4, sent @ [p])"
    using runLoop_unroll[OF i] by metis
  let ?R = "runLoop tp gv st st i (h, sent)"
  have before: "\<And>k. k < i \<Longrightarrow> st ! k \<noteq> st ! i"
    using assms i by (simp add: nth_eq_iff_index_eq)
  \<comment> \<open>the store at the end agrees with \<open>h4\<close> on the steps up to \<open>i\<close>\<close>
  have upto: "\<And>k. k \<le> i \<Longrightarrow> fst ?R (st ! k) = h4 (st ! k)"
  proof -
    fix k assume k: "k \<le> i"
    show "fst ?R (st ! k) = h4 (st ! k)"
    proof (cases "resolves (tp i p)")
      case True
      have "st ! k \<notin> set (drop (i + 1) st)"
        using nth_not_in_drop[OF assms, of k "i + 1"] k i by simp
      then show ?thesis using yes[OF True] runLoop_frame by simp
    next
      case False
      then show ?thesis using no by simp
    qed
  qed
  have at_i: "snd ?R ! i = p"
  proof (cases "resolves (tp i p)")
    case True
    obtain ext where "snd (runLoop tp gv st st (i + 1) (h4, sent @ [p])) = (sent @ [p]) @ ext"
      using runLoop_sent by blast
    then show ?thesis using yes[OF True] Suc.prems(1) by (simp add: nth_append)
  next
    case False
    then show ?thesis using no Suc.prems(1) by (simp add: nth_append)
  qed
  show ?case
  proof (cases "j = i")
    case True
    have "stageRequest gv st ?h2 i = stageRequest gv st (fst ?R) i"
    proof (rule stageRequest_cong)
      show "\<forall>k < i. k < length st \<longrightarrow>
              output_field (?h2 (st ! k)) = output_field (fst ?R (st ! k))"
        using upto before h4 by simp
      show "promptData (?h2 (st ! i)) = promptData (fst ?R (st ! i))"
        using upto[of i] h4 by (simp add: settle_def)
    qed
    then show ?thesis using True at_i p upto[of i] h4 by simp
  next
    case False
    then have j: "i + 1 \<le> j" using Suc.prems(2) by simp
    show ?thesis
    proof (cases "resolves (tp i p)")
      case True
      have jl: "j < length (snd (runLoop tp gv st st (i + 1) (h4, sent @ [p])))"
        using Suc.prems(3) yes[OF True] by simp
      have len: "length (sent @ [p]) = i + 1" using Suc.prems(1) by simp
      have "j < length st"
        using jl runLoop_length[OF len, of st tp gv h4] i by simp
      then have "h4 (st ! j) = h (st ! j)"
        using h4 assms i False by (simp add: nth_eq_iff_index_eq)
      then show ?thesis
        using Suc(1)[OF n len j jl] yes[OF True] by simp
    next
      case False
      then have "length (snd ?R) = i + 1" using no Suc.prems(1) by simp
      then show ?thesis using j Suc.prems(3) by simp
    qed
  qed
qed

text \<open>Every call but the last one of a run resolved.\<close>

lemma runLoop_earlier_resolved:
  "length sent = i \<Longrightarrow> i \<le> j \<Longrightarrow> Suc j < length (snd (runLoop tp gv st st i (h, sent))) \<Longrightarrow>
   resolves (tp j (snd (runLoop tp gv st st i (h, sent)) ! j))"
proof (induction "length st - i" arbitrary: i h sent)
  case 0
  then show ?case by (simp add: runLoop_stop)
next
  case (Suc n)
  then have i: "i < length st" by simp
  have n: "n = length st - (i + 1)" using Suc(2) by simp
  obtain p h4 where
    yes: "resolves (tp i p) \<Longrightarrow>
       runLoop tp gv st st i (h, sent) = runLoop tp gv st st (i + 1) (h4, sent @ [p])"
    and no: "\<not> resolves (tp i p) \<Longrightarrow> runLoop tp gv st st i (h, sent) = (h4, sent @ [p])"
    using runLoop_unroll[OF i] by metis
  have len: "length (sent @ [p]) = i + 1" using Suc.prems(1) by simp
  show ?case
  proof (cases "resolves (tp i p)")
    case True
    obtain ext where e: "snd (runLoop tp gv st st (i + 1) (h4, sent @ [p])) = (sent @ [p]) @ ext"
      using runLoop_sent by blast
    show ?thesis
    proof (cases "j = i")
      case True
      then show ?thesis using \<open>resolves (tp i p)\<close> yes e Suc.prems(1) by (simp add: nth_append)
    next
      case False
      then have j: "i + 1 \<le> j" using Suc.prems(2) by simp
      show ?thesis using Suc(1)[OF n len j] Suc.prems(3) yes[OF True] by simp
    qed
  next
    case False
    then show ?thesis using no Suc.prems by simp
  qed
qed

text \<open>A run that made fewer calls than there are steps stopped at a call that rejected.\<close>

lemma runLoop_stopped:
  "length sent = i \<Longrightarrow>
   length (snd (runLoop tp gv st st i (h, sent))) < length st \<Longrightarrow>
   i < length (snd (runLoop tp gv st st i (h, sent))) \<and>
   \<not> resolves (tp (length (snd (runLoop tp gv st st i (h, sent))) - 1)
                  (snd (runLoop tp gv st st i (h, sent))
                     ! (length (snd (runLoop tp gv st st i (h, sent))) - 1)))"
proof (induction "length st - i" arbitrary: i h sent)
  case 0
  then show ?case by (simp add: runLoop_stop)
next
  case (Suc n)
  then have i: "i < length st" by simp
  have n: "n = length st - (i + 1)" using Suc(2) by simp
  obtain p h4 where
    yes: "resolves (tp i p) \<Longrightarrow>
       runLoop tp gv st st i (h, sent) = runLoop tp gv st st (i + 1) (h4, sent @ [p])"
    and no: "\<not> resolves (tp i p) \<Longrightarrow> runLoop tp gv st st i (h, sent) = (h4, sent @ [p])"
    using runLoop_unroll[OF i] by metis
  have len: "length (sent @ [p]) = i + 1" using Suc.prems(1) by simp
  show ?case
  proof (cases "resolves (tp i p)")
    case True
    have "length (snd (runLoop tp gv st st (i + 1) (h4, sent @ [p]))) < length st"
      using Suc.prems(2) yes[OF True] by simp
    from Suc(1)[OF n len this] show ?thesis using yes[OF True] by auto
  next
    case False
    then show ?thesis using no Suc.prems(1) by (simp add: nth_append)
  qed
qed

text \<open>The steps after the last call are as they were before the run.\<close>

lemma runLoop_untouched:
  assumes "distinct st"
  shows "length sent = i \<Longrightarrow>
     length (snd (runLoop tp gv st st i (h, sent))) \<le> k \<Longrightarrow> k < length st \<Longrightarrow>
     fst (runLoop tp gv st st i (h, sent)) (st ! k) = h (st ! k)"
proof (induction "length st - i" arbitrary: i h sent)
  case 0
  then show ?case by (simp add: runLoop_stop)
next
  case (Suc n)
  then have i: "i < length st" by simp
  have n: "n = length st - (i + 1)" using Suc(2) by simp
  obtain p h4 where h4: "h4 = h(st ! i := settle (tp i p) (h (st ! i)))"
    and yes: "resolves (tp i p) \<Longrightarrow>
       runLoop tp gv st st i (h, sent) = runLoop tp gv st st (i + 1) (h4, sent @ [p])"
    and no: "\<not> resolves (tp i p) \<Longrightarrow> runLoop tp gv st st i (h, sent) = (h4, sent @ [p])"
    using runLoop_unroll[OF i] by metis
  have len: "length (sent @ [p]) = i + 1" using Suc.prems(1) by simp
  have ik: "i < k"
  proof (cases "resolves (tp i p)")
    case True
    then show ?thesis
      using runLoop_length[OF len, of st tp gv h4] yes Suc.prems(2) i by simp
  next
    case False
    then show ?thesis using no Suc.prems(1,2) by simp
  qed
  then have same: "h4 (st ! k) = h (st ! k)"
    using h4 assms i Suc.prems(3) by (simp add: nth_eq_iff_index_eq)
  show ?case
  proof (cases "resolves (tp i p)")
    case True
    show ?thesis using Suc(1)[OF n len] Suc.prems(2,3) yes[OF True] same by simp
  next
    case False
    then show ?thesis using no same by simp
  qed
qed

lemma runChain_fst: "fst (runChain tp c) = Fulfilled ()"
  by (simp add: runChain_def Let_def split: prod.splits)

lemma runChain_store:
  "store (snd (runChain tp c)) =
     fst (runLoop tp (globalVariables c) (steps c) (steps c) 0 (store c, []))"
  by (simp add: runChain_def Let_def split: prod.splits)

lemma runChain_requests:
  "requests (snd (runChain tp c)) =
     snd (runLoop tp (globalVariables c) (steps c) (steps c) 0 (store c, []))"
  by (simp add: runChain_def Let_def split: prod.splits)

lemma runChain_steps: "steps (snd (runChain tp c)) = steps c"
  by (simp add: runChain_def Let_def split: prod.splits)

lemma runChain_globalVariables: "globalVariables (snd (runChain tp c)) = globalVariables c"
  by (simp add: runChain_def Let_def split: prod.splits)

lemma runChain_isRunning: "\<not> isRunning (snd (runChain tp c))"
  by (simp add: runChain_def Let_def split: prod.splits)

text \<open>The end-to-end scenario of the specification.\<close>

lemma end_to_end_scenario:
  "output_field (store (snd (runChain (streams [''Bees '', ''are '', ''great.''])
      (exampleChain [(''topic'', ''bees'')] [0]))) 0) = Some ''Bees are great.'' \<and>
   status (store (snd (runChain (streams [''Bees '', ''are '', ''great.''])
      (exampleChain [(''topic'', ''bees'')] [0]))) 0) = Completed \<and>
   requests (snd (runChain (streams [''Bees '', ''are '', ''great.''])
      (exampleChain [(''topic'', ''bees'')] [0]))) =
     [''Role: '' @ [CHR 0x0A] @ ''Instruction: Summarize bees'' @ [CHR 0x0A] @ ''Context: '' @
      [CHR 0x0A] @ ''Constraints: '' @ [CHR 0x0A] @ ''Evaluation: '']"
  by (simp add: runChain_store runChain_requests exampleChain_def runLoop_step runLoop_stop
        Let_def streams_def settle_def exampleStore_def stepWith_def stageRequest_def
        fullPrompt_def substituteAll_def split_str_def placeholder_def)

lemma set_outputEntries:
  "(key, out) \<in> set (outputEntries xs i) \<longleftrightarrow>
     (\<exists>k. k < i \<and> k < length xs \<and> key = ''output_'' @ string_of_nat (k + 1) \<and>
          output_field (xs ! k) = Some out \<and> out \<noteq> [])"
proof
  assume "(key, out) \<in> set (outputEntries xs i)"
  then obtain idx step where m: "(idx, step) \<in> set (enumerate 0 xs)"
    and e: "(key, out) \<in> set (case output_field step of
                 Some out \<Rightarrow>
                   if idx < i \<and> out \<noteq> []
                   then [(''output_'' @ string_of_nat (idx + 1), out)]
                   else []
               | None \<Rightarrow> [])"
    by (auto simp: outputEntries_def)
  from m have "idx < length xs" "xs ! idx = step" by (auto simp: in_set_enumerate_eq)
  with e show "\<exists>k. k < i \<and> k < length xs \<and> key = ''output_'' @ string_of_nat (k + 1) \<and>
          output_field (xs ! k) = Some out \<and> out \<noteq> []"
    by (auto split: option.splits if_splits)
next
  assume "\<exists>k. k < i \<and> k < length xs \<and> key = ''output_'' @ string_of_nat (k + 1) \<and>
          output_field (xs ! k) = Some out \<and> out \<noteq> []"
  then obtain k where k: "k < i" "k < length xs" "key = ''output_'' @ string_of_nat (k + 1)"
    "output_field (xs ! k) = Some out" "out \<noteq> []" by blast
  then have "(k, xs ! k) \<in> set (enumerate 0 xs)" by (simp add: in_set_enumerate_eq)
  then show "(key, out) \<in> set (outputEntries xs i)"
    unfolding outputEntries_def using k
    by (auto intro!: bexI[of _ "(k, xs ! k)"])
qed

lemma runChain_earlier_completed:
  assumes "distinct (steps c)" "i < length (requests (snd (runChain tp c)))" "k < i"
  shows "status (store (snd (runChain tp c)) (steps c ! k)) = Completed"
proof -
  let ?R = "runLoop tp (globalVariables c) (steps c) (steps c) 0 (store c, [])"
  have i: "i < length (snd ?R)" using assms(2) by (simp add: runChain_requests)
  then have "Suc k < length (snd ?R)" using assms(3) by simp
  then have "resolves (tp k (snd ?R ! k))"
    using runLoop_earlier_resolved[of "[]" 0 k tp "globalVariables c" "steps c" "store c"]
    by simp
  moreover have "fst ?R (steps c ! k) = settle (tp k (snd ?R ! k)) (store c (steps c ! k))"
    using runLoop_stage[OF assms(1), of "[]" 0 k tp "globalVariables c" "store c"] i assms(3)
    by simp
  ultimately show ?thesis by (simp add: runChain_store settle_def)
qed

lemma runChain_request:
  assumes "distinct (steps c)" "i < length (requests (snd (runChain tp c)))"
  shows "requests (snd (runChain tp c)) ! i =
           fullPrompt (\<lambda>s. substituteAll (globalVariables c)
                              (map (store (snd (runChain tp c))) (steps c)) s i)
             (promptData (store c (steps c ! i)))"
proof -
  let ?R = "runLoop tp (globalVariables c) (steps c) (steps c) 0 (store c, [])"
  have i: "i < length (snd ?R)" using assms(2) by (simp add: runChain_requests)
  from runLoop_stage[OF assms(1), of "[]" 0 i tp "globalVariables c" "store c"] i
  have "snd ?R ! i = stageRequest (globalVariables c) (steps c) (fst ?R) i"
    and "fst ?R (steps c ! i) = settle (tp i (snd ?R ! i)) (store c (steps c ! i))"
    by simp_all
  then show ?thesis
    by (simp add: runChain_store runChain_requests stageRequest_def settle_def)
qed

lemma outputEntries_from_beyond:
  "i \<le> n \<Longrightarrow>
   concat (map (\<lambda>(idx, step).
                    (case output_field step of
                       Some out \<Rightarrow>
                         if idx < i \<and> out \<noteq> []
                         then [(''output_'' @ string_of_nat (idx + 1), out)]
                         else []
                     | None \<Rightarrow> []))
               (enumerate n xs)) = []"
  by (auto simp: in_set_enumerate_eq split: option.splits)

lemma outputEntries_one:
  assumes "xs \<noteq> []" "output_field (xs ! 0) = Some out" "out \<noteq> []"
  shows "outputEntries xs 1 = [(''output_1'', out)]"
proof -
  obtain x xs' where xs: "xs = x # xs'" using assms(1) by (cases xs) auto
  have "string_of_nat 1 = ''1''" by (simp add: string_of_nat.simps digit_def)
  then show ?thesis
    using assms(2,3) xs
    by (simp add: outputEntries_def outputEntries_from_beyond)
qed

lemma substituteAll_at_output_1:
  assumes "xs \<noteq> []" "output_field (xs ! 0) = Some out" "out \<noteq> []"
    and "\<forall>k \<in> fst ` set gv. brace_free k \<and> k \<noteq> ''output_1''"
  shows "substituteAll gv xs (x @ ''{{output_1}}'' @ y) 1 =
         substituteAll gv xs x 1 @ out @ substituteAll gv xs y 1"
proof -
  have ph: "''{{output_1}}'' = placeholder ''output_1''" by (simp add: placeholder_def)
  have bf: "brace_free ''output_1''" by (simp add: brace_free_def)
  have sc: "\<And>s. substituteAll gv xs s 1 =
              replaceAll (placeholder ''output_1'') out (substituteVars gv s)"
    unfolding substituteAll_scope outputEntries_one[OF assms(1-3)]
    by (simp add: substituteVars_append substituteVars_Cons substituteVars_Nil)
  have "substituteVars gv (x @ placeholder ''output_1'' @ y) =
        substituteVars gv x @ placeholder ''output_1'' @ substituteVars gv y"
    using bf assms(4) by (rule substituteVars_keep_placeholder)
  then show ?thesis
    unfolding ph sc
    using replaceAll_at_placeholder[of "''output_1''" out "substituteVars gv x" "substituteVars gv y"]
    by simp
qed

section \<open>The claims\<close>

text \<open>
  C6. A placeholder whose name is not a key of the scope passes through unchanged: the
  resolver treats the text before it and the text after it on their own and leaves the
  placeholder between them as it is. Names and keys are identifiers (no brace). This
  holds for the tester's \<open>substituteVars\<close> and for the chainer's \<open>substituteAll\<close>,
  whose scope is the global variables and the truthy outputs of the earlier steps; and
  \<open>resolve("Hello {{missing}}", {})\<close> is \<open>"Hello {{missing}}"\<close>.
\<close>

theorem unresolved_passthrough:
  "(brace_free n \<and> (\<forall>k \<in> fst ` set S. brace_free k \<and> k \<noteq> n) \<longrightarrow>
      substituteVars S (a @ placeholder n @ b) =
        substituteVars S a @ placeholder n @ substituteVars S b) \<and>
   (brace_free n \<and> (\<forall>k \<in> fst ` set gv. brace_free k) \<and>
    (\<forall>k \<in> fst ` set (gv @ outputEntries xs i). k \<noteq> n) \<longrightarrow>
      substituteAll gv xs (a @ placeholder n @ b) i =
        substituteAll gv xs a i @ placeholder n @ substituteAll gv xs b i) \<and>
   substituteVars [] ''Hello {{missing}}'' = ''Hello {{missing}}''"
proof (intro conjI impI)
  assume "brace_free n \<and> (\<forall>k \<in> fst ` set S. brace_free k \<and> k \<noteq> n)"
  then show "substituteVars S (a @ placeholder n @ b) =
        substituteVars S a @ placeholder n @ substituteVars S b"
    by (simp add: substituteVars_keep_placeholder)
next
  assume h: "brace_free n \<and> (\<forall>k \<in> fst ` set gv. brace_free k) \<and>
    (\<forall>k \<in> fst ` set (gv @ outputEntries xs i). k \<noteq> n)"
  then have "\<forall>k \<in> fst ` set (gv @ outputEntries xs i). brace_free k \<and> k \<noteq> n"
    using outputEntries_brace_free[of xs i] by auto
  with h show "substituteAll gv xs (a @ placeholder n @ b) i =
        substituteAll gv xs a i @ placeholder n @ substituteAll gv xs b i"
    unfolding substituteAll_scope by (intro substituteVars_keep_placeholder) auto
next
  show "substituteVars [] ''Hello {{missing}}'' = ''Hello {{missing}}''"
    by (simp add: substituteVars_Nil)
qed

theorem unresolved_passthrough_witness:
  "substituteVars [(''name'', ''Ada'')] ''Dear {{name}}, {{missing}}!'' =
     ''Dear Ada, {{missing}}!'' \<and>
   substituteAll [(''topic'', ''bees'')]
     [\<lparr>step_id = ''u1'', name = ''one'',
       promptData = \<lparr>role = [], instruction = [], context_field = [], constraints = [],
                     evaluation = []\<rparr>,
       output_field = Some ''S'', status = Completed\<rparr>]
     ''{{output_1}} on {{topic}}: {{output_2}}'' 1 = ''S on bees: {{output_2}}''"
proof -
  have S: "brace_free ''missing'' \<and>
           (\<forall>k \<in> fst ` set [(''name'', ''Ada'')]. brace_free k \<and> k \<noteq> ''missing'')"
    by (simp add: brace_free_def)
  let ?xs = "[\<lparr>step_id = ''u1'', name = ''one'',
       promptData = \<lparr>role = [], instruction = [], context_field = [], constraints = [],
                     evaluation = []\<rparr>,
       output_field = Some ''S'', status = Completed\<rparr>]"
  have A: "brace_free ''output_2'' \<and> (\<forall>k \<in> fst ` set [(''topic'', ''bees'')]. brace_free k) \<and>
      (\<forall>k \<in> fst ` set ([(''topic'', ''bees'')] @ outputEntries ?xs 1). k \<noteq> ''output_2'')"
    by (simp add: brace_free_def outputEntries_def string_of_nat.simps digit_def)
  have 1: "substituteVars [(''name'', ''Ada'')] (''Dear {{name}}, '' @ placeholder ''missing'' @ ''!'') =
        substituteVars [(''name'', ''Ada'')] ''Dear {{name}}, '' @ placeholder ''missing'' @
        substituteVars [(''name'', ''Ada'')] ''!''"
    using unresolved_passthrough[of "''missing''" "[(''name'', ''Ada'')]" "''Dear {{name}}, ''" "''!''"] S
    by blast
  have 2: "substituteAll [(''topic'', ''bees'')] ?xs
             (''{{output_1}} on {{topic}}: '' @ placeholder ''output_2'' @ []) 1 =
           substituteAll [(''topic'', ''bees'')] ?xs ''{{output_1}} on {{topic}}: '' 1 @
             placeholder ''output_2'' @ substituteAll [(''topic'', ''bees'')] ?xs [] 1"
    using unresolved_passthrough[of "''output_2''" _ _ _ "[(''topic'', ''bees'')]" ?xs 1] A
    by blast
  have e1: "substituteVars [(''name'', ''Ada'')] ''Dear {{name}}, '' = ''Dear Ada, ''"
    "substituteVars [(''name'', ''Ada'')] ''!'' = ''!''"
    by (simp_all add: substituteVars_def split_str_def placeholder_def)
  have e2: "substituteAll [(''topic'', ''bees'')] ?xs ''{{output_1}} on {{topic}}: '' 1 = ''S on bees: ''"
    "substituteAll [(''topic'', ''bees'')] ?xs [] 1 = []"
    by (simp_all add: substituteAll_def split_str_def placeholder_def string_of_nat.simps digit_def)
  from 1 2 e1 e2 show ?thesis by (simp add: placeholder_def)
qed

text \<open>
  C9. Resolving a second time with the same scope changes nothing when the first result
  holds no placeholder of a key of the scope, for \<open>substituteVars\<close> and for
  \<open>substituteAll\<close> (whose scope is the global variables and the truthy outputs of the
  earlier steps).
\<close>

theorem resolve_twice_settled:
  "((\<forall>k \<in> fst ` set S. \<not> sublist (placeholder k) (substituteVars S T)) \<longrightarrow>
      substituteVars S (substituteVars S T) = substituteVars S T) \<and>
   ((\<forall>k \<in> fst ` set (gv @ outputEntries xs i).
        \<not> sublist (placeholder k) (substituteAll gv xs T i)) \<longrightarrow>
      substituteAll gv xs (substituteAll gv xs T i) i = substituteAll gv xs T i)"
  by (simp add: substituteAll_scope substituteVars_settled)

theorem resolve_twice_settled_witness:
  "substituteVars [(''x'', ''there'')] (substituteVars [(''x'', ''there'')] ''Hi {{x}}'') =
     substituteVars [(''x'', ''there'')] ''Hi {{x}}'' \<and>
   substituteVars [(''x'', ''there'')] ''Hi {{x}}'' = ''Hi there'' \<and>
   substituteAll [(''x'', ''there'')] [] (substituteAll [(''x'', ''there'')] [] ''Hi {{x}}'' 0) 0 =
     substituteAll [(''x'', ''there'')] [] ''Hi {{x}}'' 0"
proof -
  have e: "substituteVars [(''x'', ''there'')] ''Hi {{x}}'' = ''Hi there''"
    by (simp add: substituteVars_def split_str_def placeholder_def)
  have e2: "substituteAll [(''x'', ''there'')] [] ''Hi {{x}}'' 0 = ''Hi there''"
    by (simp add: substituteAll_def split_str_def placeholder_def)
  have n: "\<not> sublist (placeholder ''x'') ''Hi there''"
    by (simp add: placeholder_def sublist_code)
  have h1: "\<forall>k \<in> fst ` set [(''x'', ''there'')].
              \<not> sublist (placeholder k) (substituteVars [(''x'', ''there'')] ''Hi {{x}}'')"
    using n by (simp add: e)
  have h2: "\<forall>k \<in> fst ` set ([(''x'', ''there'')] @ outputEntries [] 0).
              \<not> sublist (placeholder k) (substituteAll [(''x'', ''there'')] [] ''Hi {{x}}'' 0)"
    using n by (simp add: e2 outputEntries_def)
  from resolve_twice_settled[where S = "[(''x'', ''there'')]" and T = "''Hi {{x}}''"
         and gv = "[(''x'', ''there'')]" and xs = "[]" and i = 0]
       h1 h2 e
  show ?thesis by blast
qed

text \<open>
  C3, as stated, fails: the passes for the keys run one after the other, each on the
  result of the one before, so the placeholder that the value of \<open>a\<close> brings in is
  replaced by the pass for the later key \<open>b\<close>; with the keys in the other order it
  is not.
\<close>

theorem rescans_inserted_value_counterexample:
  "\<not> sublist (placeholder ''b'') ''{{a}}'' \<and>
   substituteVars [(''a'', ''{{b}}''), (''b'', ''X'')] ''{{a}}'' = ''X'' \<and>
   substituteVars [(''b'', ''X''), (''a'', ''{{b}}'')] ''{{a}}'' = ''{{b}}''"
  by (simp add: substituteVars_def split_str_def placeholder_def sublist_code)

text \<open>
  C3, amended. The pass for one key is a single left-to-right scan: where the text
  starts with the key's placeholder the value is written and the scan resumes after the
  placeholder, without looking at the value; elsewhere the code unit is kept. The passes
  are applied in the order of the scope's entries, each to the result of the one
  before, so a placeholder that a value brings in is replaced when its name is a later
  key. \<open>substituteAll\<close> is \<open>substituteVars\<close> with the global entries followed by the
  output entries.
\<close>

theorem passes_in_key_order:
  "substituteVars [(k, v)] [] = [] \<and>
   substituteVars [(k, v)] (placeholder k @ r) = v @ substituteVars [(k, v)] r \<and>
   (\<not> prefix (placeholder k) (c # cs) \<longrightarrow>
      substituteVars [(k, v)] (c # cs) = c # substituteVars [(k, v)] cs) \<and>
   substituteVars (S1 @ S2) T = substituteVars S2 (substituteVars S1 T) \<and>
   substituteAll gv xs T i = substituteVars (gv @ outputEntries xs i) T"
proof (intro conjI impI)
  show "substituteVars [(k, v)] [] = []"
    by (simp add: substituteVars_Cons substituteVars_Nil)
  show "substituteVars [(k, v)] (placeholder k @ r) = v @ substituteVars [(k, v)] r"
    by (simp add: substituteVars_Cons substituteVars_Nil replaceAll_match placeholder_not_Nil)
  show "substituteVars (S1 @ S2) T = substituteVars S2 (substituteVars S1 T)"
    by (rule substituteVars_append)
  show "substituteAll gv xs T i = substituteVars (gv @ outputEntries xs i) T"
    by (rule substituteAll_scope)
next
  assume "\<not> prefix (placeholder k) (c # cs)"
  then show "substituteVars [(k, v)] (c # cs) = c # substituteVars [(k, v)] cs"
    by (simp add: substituteVars_Cons substituteVars_Nil)
qed

theorem passes_in_key_order_witness:
  "\<not> prefix (placeholder ''x'') ''a{{x}}'' \<and>
   substituteVars [(''x'', ''{{x}}!'')] ''a{{x}}'' = ''a{{x}}!''"
proof -
  have p: "\<not> prefix (placeholder ''x'') (CHR ''a'' # ''{{x}}'')"
    by (simp add: placeholder_def)
  from passes_in_key_order[where k = "''x''" and v = "''{{x}}!''" and c = "CHR ''a''"
         and cs = "''{{x}}''" and r = "[]"]
  have "substituteVars [(''x'', ''{{x}}!'')] (CHR ''a'' # ''{{x}}'') =
          CHR ''a'' # substituteVars [(''x'', ''{{x}}!'')] ''{{x}}''"
    and "substituteVars [(''x'', ''{{x}}!'')] (placeholder ''x'' @ []) =
          ''{{x}}!'' @ substituteVars [(''x'', ''{{x}}!'')] []"
    and "substituteVars [(''x'', ''{{x}}!'')] [] = []"
    using p by blast+
  with p show ?thesis by (simp add: placeholder_def)
qed

text \<open>
  C1, as stated, fails: the global entries are applied before the output entries, so
  with the global variable \<open>output_1 = "G"\<close> and the output \<open>"S"\<close> of stage 1, the
  placeholder \<open>{{output_1}}\<close> of stage 2 resolves to \<open>"G"\<close>.
\<close>

theorem global_wins_counterexample:
  "substituteAll [(''output_1'', ''G'')]
     [\<lparr>step_id = ''u1'', name = ''Stage 1'',
       promptData = \<lparr>role = [], instruction = [], context_field = [], constraints = [],
                     evaluation = []\<rparr>,
       output_field = Some ''S'', status = Completed\<rparr>,
      \<lparr>step_id = ''u2'', name = ''Stage 2'',
       promptData = \<lparr>role = [], instruction = ''{{output_1}}'', context_field = [],
                     constraints = [], evaluation = []\<rparr>,
       output_field = Some [], status = Running\<rparr>]
     ''{{output_1}}'' 1 = ''G''"
  by (simp add: substituteAll_def split_str_def placeholder_def string_of_nat.simps digit_def)

text \<open>
  C1, amended. With the global scope \<open>{output_1: G}\<close>, whatever the output of stage 1,
  the placeholder \<open>{{output_1}}\<close> in a field of stage 2 resolves to \<open>G\<close>, provided
  \<open>G\<close> does not itself hold \<open>{{output_1}}\<close>: the global variable wins.
\<close>

theorem global_wins:
  "\<not> sublist (placeholder ''output_1'') G \<Longrightarrow>
   substituteAll [(''output_1'', G)] [s1, s2] (placeholder ''output_1'') 1 = G"
proof -
  assume n: "\<not> sublist (placeholder ''output_1'') G"
  have g: "substituteVars [(''output_1'', G)] (placeholder ''output_1'') = G"
    using replaceAll_match[OF placeholder_not_Nil, of "''output_1''" G "[]"]
    by (simp add: substituteVars_Cons substituteVars_Nil)
  have k: "\<forall>k \<in> fst ` set (outputEntries [s1, s2] 1). k = ''output_1''"
    by (auto simp: outputEntries_def string_of_nat.simps digit_def split: option.splits)
  have "substituteVars (outputEntries [s1, s2] 1) G = G"
    using n k by (intro substituteVars_settled) auto
  moreover have "substituteAll [(''output_1'', G)] [s1, s2] (placeholder ''output_1'') 1 =
      substituteVars (outputEntries [s1, s2] 1)
        (substituteVars [(''output_1'', G)] (placeholder ''output_1''))"
    unfolding substituteAll_scope by (rule substituteVars_append)
  ultimately show ?thesis using g by simp
qed

theorem global_wins_witness:
  "\<not> sublist (placeholder ''output_1'') ''G'' \<and>
   substituteAll [(''output_1'', ''G'')]
     [\<lparr>step_id = ''u1'', name = ''Stage 1'',
       promptData = \<lparr>role = [], instruction = [], context_field = [], constraints = [],
                     evaluation = []\<rparr>,
       output_field = Some ''S'', status = Completed\<rparr>,
      \<lparr>step_id = ''u2'', name = ''Stage 2'',
       promptData = \<lparr>role = [], instruction = ''{{output_1}}'', context_field = [],
                     constraints = [], evaluation = []\<rparr>,
       output_field = Some [], status = Running\<rparr>]
     (placeholder ''output_1'') 1 = ''G''"
proof -
  have n: "\<not> sublist (placeholder ''output_1'') ''G''"
    by (simp add: placeholder_def sublist_code)
  from global_wins[OF n] n show ?thesis by blast
qed

text \<open>
  C10. \<open>removeStep\<close> leaves a chain of exactly one step as it is, and otherwise keeps
  the steps whose identifier is not the given one; \<open>addStep\<close> appends one step. From a
  chain that has a step and whose identifiers are distinct, every sequence of
  \<open>addStep\<close> and \<open>removeStep\<close> in which each new identifier is fresh ends in a
  chain that has a step.
\<close>

theorem chain_never_empty:
  "(length (steps c) = 1 \<longrightarrow> removeStep i c = c) \<and>
   (length (steps c) \<noteq> 1 \<longrightarrow>
      removeStep i c = c\<lparr>steps := filter (\<lambda>a. step_id (store c a) \<noteq> i) (steps c)\<rparr>) \<and>
   steps (addStep uuid c) = steps c @ [newAddress (steps c)] \<and>
   (chainOk c \<and> freshIds c ops \<longrightarrow> steps (fold perform ops c) \<noteq> [])"
proof (intro conjI impI)
  assume "length (steps c) = 1"
  then show "removeStep i c = c" by (simp add: removeStep_def)
next
  assume "length (steps c) \<noteq> 1"
  then show "removeStep i c = c\<lparr>steps := filter (\<lambda>a. step_id (store c a) \<noteq> i) (steps c)\<rparr>"
    by (cases "steps c") (auto simp: removeStep_def)
next
  show "steps (addStep uuid c) = steps c @ [newAddress (steps c)]"
    by (rule steps_addStep)
next
  assume "chainOk c \<and> freshIds c ops"
  then have "chainOk (fold perform ops c)" by (simp add: chainOk_fold)
  then show "steps (fold perform ops c) \<noteq> []" by (simp add: chainOk_def)
qed

theorem chain_never_empty_witness:
  "steps (fold perform [RemoveStep ''u1'', AddStep ''u2'', RemoveStep ''u1'', RemoveStep ''u2'']
     \<lparr>store = (\<lambda>a. \<lparr>step_id = ''u1'', name = ''Stage 1: Foundation'',
         promptData = \<lparr>role = ''Expert Researcher'',
           instruction = ''Synthesize the core themes of {{topic}}.'',
           context_field = ''Preparing a high-level briefing.'',
           constraints = ''Max 3 bullet points.'',
           evaluation = ''Clear, concise synthesis.''\<rparr>,
         output_field = None, status = Idle\<rparr>),
       steps = [0], isRunning = False,
       globalVariables = [(''topic'', ''Artificial Intelligence and Human Creativity'')],
       requests = []\<rparr>) \<noteq> []"
proof -
  let ?c = "\<lparr>store = (\<lambda>a. \<lparr>step_id = ''u1'', name = ''Stage 1: Foundation'',
         promptData = \<lparr>role = ''Expert Researcher'',
           instruction = ''Synthesize the core themes of {{topic}}.'',
           context_field = ''Preparing a high-level briefing.'',
           constraints = ''Max 3 bullet points.'',
           evaluation = ''Clear, concise synthesis.''\<rparr>,
         output_field = None, status = Idle\<rparr>),
       steps = [0], isRunning = False,
       globalVariables = [(''topic'', ''Artificial Intelligence and Human Creativity'')],
       requests = []\<rparr>"
  let ?ops = "[RemoveStep ''u1'', AddStep ''u2'', RemoveStep ''u1'', RemoveStep ''u2'']"
  have ok: "chainOk ?c" by (simp add: chainOk_def stepIds_def)
  have fr: "freshIds ?c ?ops"
    by (simp add: removeStep_def stepIds_def)
  from chain_never_empty[where c = ?c and ops = ?ops] ok fr show ?thesis by blast
qed

text \<open>
  C8, as stated, fails: the fields are joined by a space before matching, and the dot
  matches a space, so a \<open>{{\<close> left open in one field is closed by a \<open>}}\<close> of a later
  field. The name found then occurs in no field, and the same fields in another order
  give another result.
\<close>

theorem detect_across_fields_counterexample:
  "detectedVars \<lparr>role = ''{{a'', instruction = ''b}}'', context_field = [],
                  constraints = [], evaluation = []\<rparr> = [''a b''] \<and>
   detectedVars \<lparr>role = ''b}}'', instruction = ''{{a'', context_field = [],
                  constraints = [], evaluation = []\<rparr> = []"
  by (simp add: detectedVars_def detectIn_def objectValues_def uniq_def stripBraces_def
                lineTerminator_def)

text \<open>
  C8, amended. \<open>detectedVars\<close> depends on the prompt text only and returns no name
  twice; the fields \<open>role = "Hi {{x}}"\<close>, \<open>instruction = "{{x}} and {{y}}"\<close> give
  \<open>x\<close> and \<open>y\<close>. When every field is a template (text without braces, and
  placeholders of identifiers on one line), the names returned are exactly the names of
  the placeholders of the five fields, and the same fields in any order give the same
  set of names.
\<close>

theorem detect_on_templates:
  "distinct (detectedVars p) \<and>
   detectedVars \<lparr>role = ''Hi {{x}}'', instruction = ''{{x}} and {{y}}'', context_field = [],
                  constraints = [], evaluation = []\<rparr> = [''x'', ''y''] \<and>
   ((\<forall>ts \<in> set tss. wellFormed ts) \<and> objectValues p = map render tss \<longrightarrow>
      set (detectedVars p) = (\<Union>ts \<in> set tss. set (names ts))) \<and>
   ((\<forall>ts \<in> set tss. wellFormed ts) \<and> objectValues p = map render tss \<and>
    objectValues q = map render tss' \<and> mset tss' = mset tss \<longrightarrow>
      set (detectedVars q) = set (detectedVars p))"
proof (intro conjI impI)
  show "distinct (detectedVars p)"
    by (simp add: detectedVars_def detectIn_def distinct_uniq)
  show "detectedVars \<lparr>role = ''Hi {{x}}'', instruction = ''{{x}} and {{y}}'', context_field = [],
                  constraints = [], evaluation = []\<rparr> = [''x'', ''y'']"
    by (simp add: detectedVars_def detectIn_def objectValues_def uniq_def stripBraces_def
                  lineTerminator_def)
next
  assume "(\<forall>ts \<in> set tss. wellFormed ts) \<and> objectValues p = map render tss"
  then show "set (detectedVars p) = (\<Union>ts \<in> set tss. set (names ts))"
    by (simp add: detectedVars_def set_detectIn)
next
  assume h: "(\<forall>ts \<in> set tss. wellFormed ts) \<and> objectValues p = map render tss \<and>
    objectValues q = map render tss' \<and> mset tss' = mset tss"
  then have s: "set tss' = set tss" by (metis mset_eq_setD)
  with h have "\<forall>ts \<in> set tss'. wellFormed ts" by simp
  then have "set (detectedVars q) = (\<Union>ts \<in> set tss'. set (names ts))"
    using h by (simp add: detectedVars_def set_detectIn)
  moreover have "set (detectedVars p) = (\<Union>ts \<in> set tss. set (names ts))"
    using h by (simp add: detectedVars_def set_detectIn)
  ultimately show "set (detectedVars q) = set (detectedVars p)" using s by simp
qed

theorem detect_on_templates_witness:
  "set (detectedVars \<lparr>role = ''{{x}} and {{y}}'', instruction = ''Hi {{x}}'',
                       context_field = [], constraints = [], evaluation = []\<rparr>) =
   set (detectedVars \<lparr>role = ''Hi {{x}}'', instruction = ''{{x}} and {{y}}'',
                       context_field = [], constraints = [], evaluation = []\<rparr>) \<and>
   set (detectedVars \<lparr>role = ''Hi {{x}}'', instruction = ''{{x}} and {{y}}'',
                       context_field = [], constraints = [], evaluation = []\<rparr>) = {''x'', ''y''}"
proof -
  let ?p = "\<lparr>role = ''Hi {{x}}'', instruction = ''{{x}} and {{y}}'',
              context_field = [], constraints = [], evaluation = []\<rparr>"
  let ?q = "\<lparr>role = ''{{x}} and {{y}}'', instruction = ''Hi {{x}}'',
              context_field = [], constraints = [], evaluation = []\<rparr>"
  let ?a = "[Lit ''Hi '', Var ''x'']"
  let ?b = "[Var ''x'', Lit '' and '', Var ''y'']"
  let ?tss = "[?a, ?b, [], [], []]"
  let ?tss' = "[?b, ?a, [], [], []]"
  have wf: "\<forall>ts \<in> set ?tss. wellFormed ts"
    by (simp add: wellFormed_def brace_free_def lineTerminator_def)
  have vp: "objectValues ?p = map render ?tss"
    by (simp add: objectValues_def render_def placeholder_def)
  have vq: "objectValues ?q = map render ?tss'"
    by (simp add: objectValues_def render_def placeholder_def)
  have m: "mset ?tss' = mset ?tss" by (simp add: add_mset_commute)
  from detect_on_templates[where p = ?p and q = ?q and tss = ?tss and tss' = ?tss'] wf vp vq m
  have "set (detectedVars ?q) = set (detectedVars ?p)"
    and "set (detectedVars ?p) = (\<Union>ts \<in> set ?tss. set (names ts))"
    by blast+
  then show ?thesis by auto
qed

text \<open>
  A chain of three steps whose first call resolves and whose second call rejects: two
  requests are made, and the third step is left exactly as it was before the run.
\<close>

lemma second_call_rejects:
  assumes "steps c = [a, b, d]" and "distinct [a, b, d]"
    and "resolves (tp 0 (requests (snd (runChain tp c)) ! 0))"
    and "\<not> resolves (tp 1 (requests (snd (runChain tp c)) ! 1))"
  shows "status (store (snd (runChain tp c)) a) = Completed \<and>
         status (store (snd (runChain tp c)) b) = Error \<and>
         store (snd (runChain tp c)) d = store c d \<and>
         length (requests (snd (runChain tp c))) = 2"
proof -
  let ?gv = "globalVariables c"
  let ?st = "steps c"
  let ?R = "runLoop tp ?gv ?st ?st 0 (store c, [])"
  have d: "distinct ?st" using assms(1,2) by simp
  have r0: "resolves (tp 0 (snd ?R ! 0))" using assms(3) by (simp add: runChain_requests)
  have r1: "\<not> resolves (tp 1 (snd ?R ! 1))" using assms(4) by (simp add: runChain_requests)
  have le: "length (snd ?R) \<le> 3"
    using runLoop_length[of "[]" 0 ?st tp ?gv "store c"] assms(1) by simp
  have n3: "length (snd ?R) \<noteq> 3"
  proof
    assume "length (snd ?R) = 3"
    then have "resolves (tp 1 (snd ?R ! 1))"
      using runLoop_earlier_resolved[of "[]" 0 1 tp ?gv ?st "store c"] by simp
    with r1 show False by simp
  qed
  have stop: "0 < length (snd ?R) \<and>
        \<not> resolves (tp (length (snd ?R) - 1) (snd ?R ! (length (snd ?R) - 1)))"
    using runLoop_stopped[of "[]" 0 tp ?gv ?st "store c"] le n3 assms(1) by simp
  have n1: "length (snd ?R) \<noteq> 1"
  proof
    assume "length (snd ?R) = 1"
    with stop r0 show False by simp
  qed
  have len: "length (snd ?R) = 2" using le n3 n1 stop by linarith
  have s0: "fst ?R (?st ! 0) = settle (tp 0 (snd ?R ! 0)) (store c (?st ! 0))"
    using runLoop_stage[OF d, of "[]" 0 0 tp ?gv "store c"] len by simp
  have s1: "fst ?R (?st ! 1) = settle (tp 1 (snd ?R ! 1)) (store c (?st ! 1))"
    using runLoop_stage[OF d, of "[]" 0 1 tp ?gv "store c"] len by simp
  have s2: "fst ?R (?st ! 2) = store c (?st ! 2)"
    using runLoop_untouched[OF d, of "[]" 0 tp ?gv "store c" 2] len assms(1) by simp
  show ?thesis
    using s0 s1 s2 r0 r1 len assms(1)
    by (simp add: runChain_store runChain_requests settle_def)
qed

text \<open>
  C2. A run starts from idle steps (idle, and no output or the empty one). For every
  such chain of three steps \<open>[A, B, C]\<close> where the call of \<open>A\<close> resolves and the call
  of \<open>B\<close> rejects, after the run \<open>A\<close> is \<open>completed\<close>, \<open>B\<close> is \<open>error\<close>, and
  \<open>C\<close> is \<open>idle\<close> with no output or the empty one: \<open>C\<close> was never attempted, only
  two requests were made and \<open>C\<close> is as it was before the run.
\<close>

theorem failure_halts_downstream:
  assumes "steps c = [a, b, d]" and "distinct [a, b, d]"
    and "\<forall>x \<in> set (steps c). status (store c x) = Idle \<and>
           (output_field (store c x) = None \<or> output_field (store c x) = Some [])"
    and "resolves (tp 0 (requests (snd (runChain tp c)) ! 0))"
    and "\<not> resolves (tp 1 (requests (snd (runChain tp c)) ! 1))"
  shows "status (store (snd (runChain tp c)) a) = Completed \<and>
         status (store (snd (runChain tp c)) b) = Error \<and>
         status (store (snd (runChain tp c)) d) = Idle \<and>
         (output_field (store (snd (runChain tp c)) d) = None \<or>
          output_field (store (snd (runChain tp c)) d) = Some []) \<and>
         store (snd (runChain tp c)) d = store c d \<and>
         length (requests (snd (runChain tp c))) = 2"
proof -
  have idle: "status (store c d) = Idle \<and>
      (output_field (store c d) = None \<or> output_field (store c d) = Some [])"
    using assms(1,3) by simp
  from second_call_rejects[where tp = tp and c = c, OF assms(1,2,4,5)] idle
  show ?thesis by simp
qed

theorem failure_halts_downstream_witness:
  "status (store (snd (runChain (rejectsAt 1) (exampleChain [] [0, 1, 2]))) 0) = Completed \<and>
   status (store (snd (runChain (rejectsAt 1) (exampleChain [] [0, 1, 2]))) 1) = Error \<and>
   status (store (snd (runChain (rejectsAt 1) (exampleChain [] [0, 1, 2]))) 2) = Idle \<and>
   output_field (store (snd (runChain (rejectsAt 1) (exampleChain [] [0, 1, 2]))) 2) = None \<and>
   length (requests (snd (runChain (rejectsAt 1) (exampleChain [] [0, 1, 2])))) = 2"
proof -
  let ?c = "exampleChain [] [0, 1, 2]"
  have st: "steps ?c = [0, 1, 2]" by (simp add: exampleChain_def)
  have di: "distinct [0::nat, 1, 2]" by simp
  have idle: "\<forall>x \<in> set (steps ?c). status (store ?c x) = Idle \<and>
           (output_field (store ?c x) = None \<or> output_field (store ?c x) = Some [])"
    by (simp add: exampleChain_def exampleStore_def stepWith_def)
  have r0: "resolves (rejectsAt 1 0 (requests (snd (runChain (rejectsAt 1) ?c)) ! 0))"
    by (simp add: rejectsAt_def)
  have r1: "\<not> resolves (rejectsAt 1 1 (requests (snd (runChain (rejectsAt 1) ?c)) ! 1))"
    by (simp add: rejectsAt_def)
  have before: "store ?c 2 = stepWith ''u3'' ''Refine {{output_2}}''"
    by (simp add: exampleChain_def exampleStore_def)
  from failure_halts_downstream[where tp = "rejectsAt 1" and c = ?c, OF st di idle r0 r1] before
  show ?thesis by (simp add: stepWith_def)
qed

text \<open>
  C5, as stated, fails: \<open>runChain\<close> returns nothing and catches the rejection, so its
  promise is fulfilled with the same value whether a call rejected or not.
\<close>

theorem run_result_counterexample:
  "fst (runChain (rejectsAt 1) (exampleChain [] [0, 1, 2])) = Fulfilled () \<and>
   fst (runChain (streams [''ok'']) (exampleChain [] [0, 1, 2])) = Fulfilled () \<and>
   status (store (snd (runChain (rejectsAt 1) (exampleChain [] [0, 1, 2]))) 1) = Error"
  by (simp add: runChain_fst runChain_store exampleChain_def
        runLoop_step runLoop_stop Let_def rejectsAt_def settle_def)

text \<open>
  C5, amended. The promise of \<open>runChain\<close> is always fulfilled, with no value. The
  outcome of the run is in the statuses it leaves: every step is \<open>completed\<close> if and
  only if every call made resolved, and the step whose call rejected is \<open>error\<close>.
\<close>

theorem run_result_in_statuses:
  "fst (runChain tp c) = Fulfilled () \<and>
   (distinct (steps c) \<longrightarrow>
      ((\<forall>a \<in> set (steps c). status (store (snd (runChain tp c)) a) = Completed) \<longleftrightarrow>
       (\<forall>j < length (requests (snd (runChain tp c))).
           resolves (tp j (requests (snd (runChain tp c)) ! j)))) \<and>
      (\<forall>j < length (requests (snd (runChain tp c))).
          \<not> resolves (tp j (requests (snd (runChain tp c)) ! j)) \<longrightarrow>
          status (store (snd (runChain tp c)) (steps c ! j)) = Error))"
proof (intro conjI impI)
  show "fst (runChain tp c) = Fulfilled ()" by (rule runChain_fst)
next
  assume d: "distinct (steps c)"
  let ?gv = "globalVariables c"
  let ?st = "steps c"
  let ?R = "runLoop tp ?gv ?st ?st 0 (store c, [])"
  have le: "length (snd ?R) \<le> length ?st"
    using runLoop_length[of "[]" 0 ?st tp ?gv "store c"] by simp
  have stage: "\<And>j. j < length (snd ?R) \<Longrightarrow>
      status (fst ?R (?st ! j)) = (if resolves (tp j (snd ?R ! j)) then Completed else Error)"
    using runLoop_stage[OF d, of "[]" 0 _ tp ?gv "store c"] by (simp add: settle_def)
  have iff: "(\<forall>a \<in> set ?st. status (fst ?R a) = Completed) \<longleftrightarrow>
        (\<forall>j < length (snd ?R). resolves (tp j (snd ?R ! j)))"
  proof
    assume all: "\<forall>a \<in> set ?st. status (fst ?R a) = Completed"
    show "\<forall>j < length (snd ?R). resolves (tp j (snd ?R ! j))"
    proof (intro allI impI)
      fix j assume j: "j < length (snd ?R)"
      then have "?st ! j \<in> set ?st" using le by simp
      with all have "status (fst ?R (?st ! j)) = Completed" by blast
      with stage[OF j] show "resolves (tp j (snd ?R ! j))" by (simp split: if_splits)
    qed
  next
    assume ok: "\<forall>j < length (snd ?R). resolves (tp j (snd ?R ! j))"
    have full: "length (snd ?R) = length ?st"
    proof (rule ccontr)
      assume "length (snd ?R) \<noteq> length ?st"
      then have "length (snd ?R) < length ?st" using le by simp
      from runLoop_stopped[of "[]" 0 tp ?gv ?st "store c", OF _ this]
      have "0 < length (snd ?R)" and
        "\<not> resolves (tp (length (snd ?R) - 1) (snd ?R ! (length (snd ?R) - 1)))"
        by simp_all
      with ok show False by simp
    qed
    show "\<forall>a \<in> set ?st. status (fst ?R a) = Completed"
    proof
      fix a assume "a \<in> set ?st"
      then obtain j where j: "j < length ?st" "?st ! j = a" by (auto simp: in_set_conv_nth)
      with full ok stage[of j] show "status (fst ?R a) = Completed" by auto
    qed
  qed
  then show "(\<forall>a \<in> set (steps c). status (store (snd (runChain tp c)) a) = Completed) \<longleftrightarrow>
       (\<forall>j < length (requests (snd (runChain tp c))).
           resolves (tp j (requests (snd (runChain tp c)) ! j)))"
    by (simp add: runChain_store runChain_requests)
  show "\<forall>j < length (requests (snd (runChain tp c))).
          \<not> resolves (tp j (requests (snd (runChain tp c)) ! j)) \<longrightarrow>
          status (store (snd (runChain tp c)) (steps c ! j)) = Error"
    using stage by (simp add: runChain_store runChain_requests)
qed

theorem run_result_in_statuses_witness:
  "(\<exists>a \<in> set [0, 1, 2].
      status (store (snd (runChain (rejectsAt 1) (exampleChain [] [0, 1, 2]))) a) \<noteq> Completed) \<and>
   status (store (snd (runChain (rejectsAt 1) (exampleChain [] [0, 1, 2]))) 1) = Error \<and>
   length (requests (snd (runChain (rejectsAt 1) (exampleChain [] [0, 1, 2])))) = 2"
proof -
  let ?c = "exampleChain [] [0, 1, 2]"
  let ?tp = "rejectsAt 1"
  have st: "steps ?c = [0, 1, 2]" by (simp add: exampleChain_def)
  have d: "distinct (steps ?c)" by (simp add: exampleChain_def)
  have len: "length (requests (snd (runChain ?tp ?c))) = 2"
    by (simp add: runChain_requests exampleChain_def runLoop_step runLoop_stop Let_def
          rejectsAt_def)
  have bad: "\<not> resolves (?tp 1 (requests (snd (runChain ?tp ?c)) ! 1))"
    by (simp add: rejectsAt_def)
  then have nall: "\<not> (\<forall>j < length (requests (snd (runChain ?tp ?c))).
           resolves (?tp j (requests (snd (runChain ?tp ?c)) ! j)))"
    using len by (metis one_less_numeral_iff semiring_norm(76))
  from run_result_in_statuses[of ?tp ?c] d
  have iff: "(\<forall>a \<in> set (steps ?c). status (store (snd (runChain ?tp ?c)) a) = Completed) \<longleftrightarrow>
       (\<forall>j < length (requests (snd (runChain ?tp ?c))).
           resolves (?tp j (requests (snd (runChain ?tp ?c)) ! j)))"
    and err: "\<forall>j < length (requests (snd (runChain ?tp ?c))).
          \<not> resolves (?tp j (requests (snd (runChain ?tp ?c)) ! j)) \<longrightarrow>
          status (store (snd (runChain ?tp ?c)) (steps ?c ! j)) = Error"
    by blast+
  from err len bad have "status (store (snd (runChain ?tp ?c)) (steps ?c ! 1)) = Error"
    by simp
  moreover from iff nall have
    "\<exists>a \<in> set (steps ?c). status (store (snd (runChain ?tp ?c)) a) \<noteq> Completed"
    by blast
  ultimately show ?thesis using len st by simp
qed

text \<open>
  C4, as stated, fails: an output is injected when it is truthy, and the empty string
  is not. Here the first step completes with the empty output, and the request of the
  second step still holds \<open>{{output_1}}\<close>.
\<close>

theorem empty_output_counterexample:
  "status (store (snd (runChain (streams []) (exampleChain [] [0, 1]))) 0) = Completed \<and>
   output_field (store (snd (runChain (streams []) (exampleChain [] [0, 1]))) 0) = Some [] \<and>
   requests (snd (runChain (streams []) (exampleChain [] [0, 1]))) ! 1 =
     ''Role: '' @ [CHR 0x0A] @ ''Instruction: {{output_1}}'' @ [CHR 0x0A] @ ''Context: '' @
     [CHR 0x0A] @ ''Constraints: '' @ [CHR 0x0A] @ ''Evaluation: ''"
  by (simp add: runChain_store runChain_requests exampleChain_def runLoop_step runLoop_stop
        Let_def streams_def settle_def exampleStore_def stepWith_def stageRequest_def
        fullPrompt_def substituteAll_def split_str_def placeholder_def)

text \<open>
  C4, amended. During a run, the request of the step at index \<open>i\<close> is assembled from
  its fields resolved with the global variables followed by the output entries, and
  every step before it is \<open>completed\<close>. The output entries are exactly
  \<open>output_(k+1)\<close>, bound to the output of step \<open>k\<close>, for the steps \<open>k < i\<close> whose
  output is not empty: a step at or after \<open>i\<close> is never injected, and neither is a
  completed step whose output is the empty string.
\<close>

theorem effective_scope_of_stage:
  "(distinct (steps c) \<longrightarrow>
      (\<forall>i < length (requests (snd (runChain tp c))).
          requests (snd (runChain tp c)) ! i =
            fullPrompt
              (substituteVars (globalVariables c @
                 outputEntries (map (store (snd (runChain tp c))) (steps c)) i))
              (promptData (store c (steps c ! i))) \<and>
          (\<forall>k < i. status (store (snd (runChain tp c)) (steps c ! k)) = Completed))) \<and>
   ((key, out) \<in> set (outputEntries xs i) \<longleftrightarrow>
      (\<exists>k. k < i \<and> k < length xs \<and> key = ''output_'' @ string_of_nat (k + 1) \<and>
           output_field (xs ! k) = Some out \<and> out \<noteq> []))"
proof (intro conjI impI allI)
  fix i
  assume d: "distinct (steps c)" and i: "i < length (requests (snd (runChain tp c)))"
  have "(\<lambda>s. substituteAll (globalVariables c)
                (map (store (snd (runChain tp c))) (steps c)) s i) =
        substituteVars (globalVariables c @
                 outputEntries (map (store (snd (runChain tp c))) (steps c)) i)"
    by (rule ext) (rule substituteAll_scope)
  then show "requests (snd (runChain tp c)) ! i =
            fullPrompt
              (substituteVars (globalVariables c @
                 outputEntries (map (store (snd (runChain tp c))) (steps c)) i))
              (promptData (store c (steps c ! i)))"
    using runChain_request[OF d i] by simp
  fix k assume "k < i"
  then show "status (store (snd (runChain tp c)) (steps c ! k)) = Completed"
    using runChain_earlier_completed[OF d i] by simp
next
  show "(key, out) \<in> set (outputEntries xs i) \<longleftrightarrow>
      (\<exists>k. k < i \<and> k < length xs \<and> key = ''output_'' @ string_of_nat (k + 1) \<and>
           output_field (xs ! k) = Some out \<and> out \<noteq> [])"
    by (rule set_outputEntries)
qed

theorem effective_scope_of_stage_witness:
  "requests (snd (runChain (streams [''S'']) (exampleChain [(''topic'', ''bees'')] [0, 1]))) ! 1 =
     fullPrompt (substituteVars [(''topic'', ''bees''), (''output_1'', ''S'')])
       (promptData (stepWith ''u2'' ''{{output_1}}'')) \<and>
   status (store (snd (runChain (streams [''S''])
     (exampleChain [(''topic'', ''bees'')] [0, 1]))) 0) = Completed"
proof -
  let ?c = "exampleChain [(''topic'', ''bees'')] [0, 1]"
  let ?tp = "streams [''S'']"
  have d: "distinct (steps ?c)" by (simp add: exampleChain_def)
  have len: "length (requests (snd (runChain ?tp ?c))) = 2"
    by (simp add: runChain_requests exampleChain_def runLoop_step runLoop_stop Let_def
          streams_def)
  have out: "map (store (snd (runChain ?tp ?c))) (steps ?c) =
       [settle (?tp 0 []) (stepWith ''u1'' ''Summarize {{topic}}''),
        settle (?tp 1 []) (stepWith ''u2'' ''{{output_1}}'')]"
    by (simp add: runChain_store exampleChain_def runLoop_step runLoop_stop Let_def
          streams_def settle_def exampleStore_def)
  have sc: "outputEntries (map (store (snd (runChain ?tp ?c))) (steps ?c)) 1 =
        [(''output_1'', ''S'')]"
    unfolding out
    by (simp add: outputEntries_def settle_def streams_def stepWith_def string_of_nat.simps
          digit_def)
  have gv: "globalVariables ?c = [(''topic'', ''bees'')]" by (simp add: exampleChain_def)
  have pd: "store ?c (steps ?c ! 1) = stepWith ''u2'' ''{{output_1}}''"
    by (simp add: exampleChain_def exampleStore_def)
  have "\<forall>i < length (requests (snd (runChain ?tp ?c))).
          requests (snd (runChain ?tp ?c)) ! i =
            fullPrompt
              (substituteVars (globalVariables ?c @
                 outputEntries (map (store (snd (runChain ?tp ?c))) (steps ?c)) i))
              (promptData (store ?c (steps ?c ! i))) \<and>
          (\<forall>k < i. status (store (snd (runChain ?tp ?c)) (steps ?c ! k)) = Completed)"
    using effective_scope_of_stage[where c = ?c and tp = ?tp and key = "[]" and out = "[]"
            and xs = "[]" and i = 0] d
    by blast
  then have "requests (snd (runChain ?tp ?c)) ! 1 =
            fullPrompt
              (substituteVars (globalVariables ?c @
                 outputEntries (map (store (snd (runChain ?tp ?c))) (steps ?c)) 1))
              (promptData (store ?c (steps ?c ! 1))) \<and>
          (\<forall>k < 1. status (store (snd (runChain ?tp ?c)) (steps ?c ! k)) = Completed)"
    using len by (metis one_less_numeral_iff semiring_norm(76))
  then show ?thesis using sc gv pd by (simp add: exampleChain_def)
qed

text \<open>
  C7, as stated, fails in its second part: the global entries are applied before the
  output entries, so when a global variable is named \<open>output_1\<close> the request of the
  second step holds that variable's value where \<open>{{output_1}}\<close> stood, and not the
  output \<open>"S"\<close> of the first step. (An empty output of the first step is not put in
  either: the placeholder stays.)
\<close>

theorem request_global_collision_counterexample:
  "output_field (store (snd (runChain (streams [''S''])
     (exampleChain [(''output_1'', ''G'')] [0, 1, 2]))) 0) = Some ''S'' \<and>
   length (requests (snd (runChain (streams [''S''])
     (exampleChain [(''output_1'', ''G'')] [0, 1, 2])))) = 3 \<and>
   requests (snd (runChain (streams [''S''])
     (exampleChain [(''output_1'', ''G'')] [0, 1, 2]))) ! 1 =
     ''Role: '' @ [CHR 0x0A] @ ''Instruction: G'' @ [CHR 0x0A] @ ''Context: '' @
     [CHR 0x0A] @ ''Constraints: '' @ [CHR 0x0A] @ ''Evaluation: ''"
  by (simp add: runChain_store runChain_requests exampleChain_def runLoop_step runLoop_stop
        Let_def streams_def settle_def exampleStore_def stepWith_def stageRequest_def
        fullPrompt_def substituteAll_def split_str_def placeholder_def
        string_of_nat.simps digit_def)

text \<open>
  C7, amended. The request of every step that a run executes is the five fields,
  resolved, under the labels \<open>Role\<close>, \<open>Instruction\<close>, \<open>Context\<close>, \<open>Constraints\<close>,
  \<open>Evaluation\<close>, in this order, one per line. When the instruction of the second
  step holds \<open>{{output_1}}\<close>, the output of the first step is not empty, and the
  global variables are identifiers other than \<open>output_1\<close>, the request of the second
  step holds the final output of the first step where the placeholder stood.
\<close>

theorem request_assembly:
  "(distinct (steps c) \<longrightarrow>
      (\<forall>i < length (requests (snd (runChain tp c))).
          requests (snd (runChain tp c)) ! i =
            ''Role: '' @
            substituteAll (globalVariables c) (map (store (snd (runChain tp c))) (steps c))
              (role (promptData (store c (steps c ! i)))) i @ [CHR 0x0A] @
            ''Instruction: '' @
            substituteAll (globalVariables c) (map (store (snd (runChain tp c))) (steps c))
              (instruction (promptData (store c (steps c ! i)))) i @ [CHR 0x0A] @
            ''Context: '' @
            substituteAll (globalVariables c) (map (store (snd (runChain tp c))) (steps c))
              (context_field (promptData (store c (steps c ! i)))) i @ [CHR 0x0A] @
            ''Constraints: '' @
            substituteAll (globalVariables c) (map (store (snd (runChain tp c))) (steps c))
              (constraints (promptData (store c (steps c ! i)))) i @ [CHR 0x0A] @
            ''Evaluation: '' @
            substituteAll (globalVariables c) (map (store (snd (runChain tp c))) (steps c))
              (evaluation (promptData (store c (steps c ! i)))) i)) \<and>
   (steps c \<noteq> [] \<and>
    output_field (store (snd (runChain tp c)) (steps c ! 0)) = Some out \<and> out \<noteq> [] \<and>
    (\<forall>k \<in> fst ` set (globalVariables c). brace_free k \<and> k \<noteq> ''output_1'') \<longrightarrow>
      substituteAll (globalVariables c) (map (store (snd (runChain tp c))) (steps c))
        (x @ ''{{output_1}}'' @ y) 1 =
      substituteAll (globalVariables c) (map (store (snd (runChain tp c))) (steps c)) x 1 @
      out @
      substituteAll (globalVariables c) (map (store (snd (runChain tp c))) (steps c)) y 1)"
proof (intro conjI impI allI)
  fix i
  assume d: "distinct (steps c)" and i: "i < length (requests (snd (runChain tp c)))"
  show "requests (snd (runChain tp c)) ! i =
            ''Role: '' @
            substituteAll (globalVariables c) (map (store (snd (runChain tp c))) (steps c))
              (role (promptData (store c (steps c ! i)))) i @ [CHR 0x0A] @
            ''Instruction: '' @
            substituteAll (globalVariables c) (map (store (snd (runChain tp c))) (steps c))
              (instruction (promptData (store c (steps c ! i)))) i @ [CHR 0x0A] @
            ''Context: '' @
            substituteAll (globalVariables c) (map (store (snd (runChain tp c))) (steps c))
              (context_field (promptData (store c (steps c ! i)))) i @ [CHR 0x0A] @
            ''Constraints: '' @
            substituteAll (globalVariables c) (map (store (snd (runChain tp c))) (steps c))
              (constraints (promptData (store c (steps c ! i)))) i @ [CHR 0x0A] @
            ''Evaluation: '' @
            substituteAll (globalVariables c) (map (store (snd (runChain tp c))) (steps c))
              (evaluation (promptData (store c (steps c ! i)))) i"
    unfolding runChain_request[OF d i] fullPrompt_def by (rule refl)
next
  assume h: "steps c \<noteq> [] \<and>
    output_field (store (snd (runChain tp c)) (steps c ! 0)) = Some out \<and> out \<noteq> [] \<and>
    (\<forall>k \<in> fst ` set (globalVariables c). brace_free k \<and> k \<noteq> ''output_1'')"
  let ?xs = "map (store (snd (runChain tp c))) (steps c)"
  have 1: "?xs \<noteq> []" using h by simp
  have 2: "output_field (?xs ! 0) = Some out" using h by (simp add: nth_map)
  show "substituteAll (globalVariables c) ?xs (x @ ''{{output_1}}'' @ y) 1 =
      substituteAll (globalVariables c) ?xs x 1 @ out @
      substituteAll (globalVariables c) ?xs y 1"
    using substituteAll_at_output_1[OF 1 2] h by blast
qed


theorem request_assembly_witness:
  "requests (snd (runChain (streams [''S''])
     (exampleChain [(''topic'', ''bees'')] [0, 1, 2]))) ! 1 =
     ''Role: '' @ [CHR 0x0A] @ ''Instruction: S'' @ [CHR 0x0A] @ ''Context: '' @
     [CHR 0x0A] @ ''Constraints: '' @ [CHR 0x0A] @ ''Evaluation: ''"
proof -
  let ?c = "exampleChain [(''topic'', ''bees'')] [0, 1, 2]"
  let ?tp = "streams [''S'']"
  let ?xs = "map (store (snd (runChain ?tp ?c))) (steps ?c)"
  have d: "distinct (steps ?c)" by (simp add: exampleChain_def)
  have len: "length (requests (snd (runChain ?tp ?c))) = 3"
    by (simp add: runChain_requests exampleChain_def runLoop_step runLoop_stop Let_def
          streams_def)
  have xs: "?xs =
       [settle (?tp 0 []) (stepWith ''u1'' ''Summarize {{topic}}''),
        settle (?tp 1 []) (stepWith ''u2'' ''{{output_1}}''),
        settle (?tp 2 []) (stepWith ''u3'' ''Refine {{output_2}}'')]"
    by (simp add: runChain_store exampleChain_def runLoop_step runLoop_stop Let_def
          streams_def settle_def exampleStore_def)
  have ne: "steps ?c \<noteq> []" by (simp add: exampleChain_def)
  have o: "output_field (store (snd (runChain ?tp ?c)) (steps ?c ! 0)) = Some ''S''"
    by (simp add: runChain_store exampleChain_def runLoop_step runLoop_stop Let_def
          streams_def settle_def exampleStore_def)
  have g: "\<forall>k \<in> fst ` set (globalVariables ?c). brace_free k \<and> k \<noteq> ''output_1''"
    by (simp add: exampleChain_def brace_free_def)
  have pd: "promptData (store ?c (steps ?c ! 1)) = promptData (stepWith ''u2'' ''{{output_1}}'')"
    by (simp add: exampleChain_def exampleStore_def)
  have e: "substituteAll (globalVariables ?c) ?xs [] 1 = []"
    by (simp add: substituteAll_scope substituteVars_settled sublist_code placeholder_def)
  have all: "\<forall>i < length (requests (snd (runChain ?tp ?c))).
          requests (snd (runChain ?tp ?c)) ! i =
            ''Role: '' @
            substituteAll (globalVariables ?c) ?xs
              (role (promptData (store ?c (steps ?c ! i)))) i @ [CHR 0x0A] @
            ''Instruction: '' @
            substituteAll (globalVariables ?c) ?xs
              (instruction (promptData (store ?c (steps ?c ! i)))) i @ [CHR 0x0A] @
            ''Context: '' @
            substituteAll (globalVariables ?c) ?xs
              (context_field (promptData (store ?c (steps ?c ! i)))) i @ [CHR 0x0A] @
            ''Constraints: '' @
            substituteAll (globalVariables ?c) ?xs
              (constraints (promptData (store ?c (steps ?c ! i)))) i @ [CHR 0x0A] @
            ''Evaluation: '' @
            substituteAll (globalVariables ?c) ?xs
              (evaluation (promptData (store ?c (steps ?c ! i)))) i"
    using request_assembly[where c = ?c and tp = ?tp and out = "''S''" and x = "[]" and y = "[]"]
          d by blast
  have at: "substituteAll (globalVariables ?c) ?xs ([] @ ''{{output_1}}'' @ []) 1 =
      substituteAll (globalVariables ?c) ?xs [] 1 @ ''S'' @
      substituteAll (globalVariables ?c) ?xs [] 1"
    using request_assembly[where c = ?c and tp = ?tp and out = "''S''" and x = "[]" and y = "[]"]
          ne o g by blast
  have "(1::nat) < length (requests (snd (runChain ?tp ?c)))" using len by simp
  with all have "requests (snd (runChain ?tp ?c)) ! 1 =
            ''Role: '' @
            substituteAll (globalVariables ?c) ?xs
              (role (promptData (store ?c (steps ?c ! 1)))) 1 @ [CHR 0x0A] @
            ''Instruction: '' @
            substituteAll (globalVariables ?c) ?xs
              (instruction (promptData (store ?c (steps ?c ! 1)))) 1 @ [CHR 0x0A] @
            ''Context: '' @
            substituteAll (globalVariables ?c) ?xs
              (context_field (promptData (store ?c (steps ?c ! 1)))) 1 @ [CHR 0x0A] @
            ''Constraints: '' @
            substituteAll (globalVariables ?c) ?xs
              (constraints (promptData (store ?c (steps ?c ! 1)))) 1 @ [CHR 0x0A] @
            ''Evaluation: '' @
            substituteAll (globalVariables ?c) ?xs
              (evaluation (promptData (store ?c (steps ?c ! 1)))) 1"
    by blast
  then show ?thesis
    unfolding pd using at e by (simp add: stepWith_def)
qed


end
